theory Spec2Isabelle
  imports Main "HOL-Library.Word"
begin

section \<open>Failures\<close>

text \<open>
  Everything that ends a call of \<^verbatim>\<open>deploy.cpp\<close> without a result is a value:
  the \<^verbatim>\<open>c10::Error\<close> that \<^verbatim>\<open>TORCH_CHECK\<close> raises, with its message, and the
  undefined behaviour of C++ that the code can run into (an index outside the array, an
  \<^verbatim>\<open>int\<close> that leaves its range, a pointer that points to nothing).
\<close>

datatype failure =
    Error string
  | OutOfBounds
  | SignedOverflow
  | BadPointer

section \<open>LoadBalancer\<close>

text \<open>
  \<open>uses\<close> is the array \<^verbatim>\<open>uses_\<close> of 64-bit usage counters; the counter of slot
  \<open>i\<close> is the element \<open>8 * i\<close>. \<open>slots\<close> is the \<^verbatim>\<open>size_t\<close> member \<^verbatim>\<open>n_\<close>, the
  number of slots. (A name of the logic cannot end in an underscore, so the members lose
  theirs.)
\<close>

record LoadBalancer =
  uses :: "64 word list"
  slots :: nat

definition SIZE_MAX :: "64 word" where
  "SIZE_MAX = - 1"

definition INT_MAX :: int where
  "INT_MAX = 2147483647"

definition INT_MIN :: int where
  "INT_MIN = - 2147483648"

text \<open>The values of a C++ \<^verbatim>\<open>int\<close>.\<close>

definition is_int :: "int \<Rightarrow> bool" where
  "is_int x \<longleftrightarrow> INT_MIN \<le> x \<and> x \<le> INT_MAX"

text \<open>
  The conversion of an \<^verbatim>\<open>int\<close> to \<^verbatim>\<open>size_t\<close> that the comparison
  \<^verbatim>\<open>last >= n_\<close> applies to its left side.
\<close>

definition to_size_t :: "int \<Rightarrow> nat" where
  "to_size_t x = nat (x mod 2 ^ 64)"

text \<open>The \<^verbatim>\<open>int\<close> product \<^verbatim>\<open>8 * last\<close> of the subscript.\<close>

definition times8 :: "int \<Rightarrow> failure + int" where
  "times8 i = (if is_int (8 * i) then Inr (8 * i) else Inl SignedOverflow)"

text \<open>
  The three atomic builtins, each one indivisible step on the array. The
  compare-and-swap returns whether it stored, and the value it leaves in
  \<^verbatim>\<open>prev\<close>: the expected value when it stored, the value it read otherwise.
\<close>

definition atomic_compare_exchange_n ::
  "64 word list \<Rightarrow> int \<Rightarrow> 64 word \<Rightarrow> 64 word \<Rightarrow> failure + (bool \<times> 64 word \<times> 64 word list)" where
  "atomic_compare_exchange_n mem p expected desired =
     (if p < 0 \<or> int (length mem) \<le> p then Inl OutOfBounds
      else if mem ! nat p = expected then Inr (True, expected, mem[nat p := desired])
      else Inr (False, mem ! nat p, mem))"

definition atomic_fetch_add :: "64 word list \<Rightarrow> int \<Rightarrow> 64 word \<Rightarrow> failure + 64 word list" where
  "atomic_fetch_add mem p v =
     (if p < 0 \<or> int (length mem) \<le> p then Inl OutOfBounds
      else Inr (mem[nat p := mem ! nat p + v]))"

definition atomic_fetch_sub :: "64 word list \<Rightarrow> int \<Rightarrow> 64 word \<Rightarrow> failure + 64 word list" where
  "atomic_fetch_sub mem p v =
     (if p < 0 \<or> int (length mem) \<le> p then Inl OutOfBounds
      else Inr (mem[nat p := mem ! nat p - v]))"

text \<open>
  The loop of \<^verbatim>\<open>LoadBalancer::acquire\<close>. The first argument counts the iterations
  that remain (\<^verbatim>\<open>n_ - i\<close>); \<open>last0\<close> is the thread-local \<^verbatim>\<open>last\<close> on entry
  to the iteration. The first equation is the code after the loop. A result is the slot
  returned, the balancer and the thread-local \<^verbatim>\<open>last\<close> as the call leaves them.
\<close>

fun acquire_loop ::
  "nat \<Rightarrow> LoadBalancer \<Rightarrow> int \<Rightarrow> 64 word \<Rightarrow> int \<Rightarrow> failure + (int \<times> LoadBalancer \<times> int)" where
  "acquire_loop 0 lb last0 minusers min_idx =
     (case times8 min_idx of
        Inl e \<Rightarrow> Inl e
      | Inr p \<Rightarrow>
          (case atomic_fetch_add (uses lb) p 1 of
             Inl e \<Rightarrow> Inl e
           | Inr mem \<Rightarrow> Inr (min_idx, lb\<lparr>uses := mem\<rparr>, last0)))"
| "acquire_loop (Suc k) lb last0 minusers min_idx =
     (let last = (if slots lb \<le> to_size_t last0 then 0 else last0) in
      case times8 last of
        Inl e \<Rightarrow> Inl e
      | Inr p \<Rightarrow>
          (case atomic_compare_exchange_n (uses lb) p 0 1 of
             Inl e \<Rightarrow> Inl e
           | Inr (acquired, prev, mem) \<Rightarrow>
               if acquired then Inr (last, lb\<lparr>uses := mem\<rparr>, last)
               else
                 let minusers' = (if prev < minusers then prev else minusers);
                     min_idx' = (if prev < minusers then last else min_idx)
                 in if last = INT_MAX then Inl SignedOverflow
                    else acquire_loop k lb (last + 1) minusers' min_idx'))"

definition LoadBalancer_acquire ::
  "LoadBalancer \<Rightarrow> int \<Rightarrow> failure + (int \<times> LoadBalancer \<times> int)" where
  "LoadBalancer_acquire lb last0 = acquire_loop (slots lb) lb last0 SIZE_MAX 0"

definition LoadBalancer_free :: "LoadBalancer \<Rightarrow> int \<Rightarrow> failure + LoadBalancer" where
  "LoadBalancer_free lb wh =
     (case times8 wh of
        Inl e \<Rightarrow> Inl e
      | Inr p \<Rightarrow>
          (case atomic_fetch_sub (uses lb) p 1 of
             Inl e \<Rightarrow> Inl e
           | Inr mem \<Rightarrow> Inr (lb\<lparr>uses := mem\<rparr>)))"


subsection \<open>Reading the balancer\<close>

text \<open>
  The counter of slot \<open>i\<close>, and the balancer with that counter replaced.
\<close>

definition counter :: "LoadBalancer \<Rightarrow> nat \<Rightarrow> 64 word" where
  "counter lb i = uses lb ! (8 * i)"

definition set_counter :: "LoadBalancer \<Rightarrow> nat \<Rightarrow> 64 word \<Rightarrow> LoadBalancer" where
  "set_counter lb i v = lb\<lparr>uses := (uses lb)[8 * i := v]\<rparr>"

text \<open>
  Modelled from the spec: the constructor of \<^verbatim>\<open>LoadBalancer\<close>, which \<^verbatim>\<open>deploy.h\<close>
  defines. The balancer owns an array of usage counters, one per slot of a pool of at
  least one interpreter. \<^verbatim>\<open>acquire\<close> reads the counter of slot \<open>i\<close> at \<open>8 * i\<close>, so
  the array reaches that far, and the pool is small enough for \<^verbatim>\<open>8 * last\<close> to stay
  an \<^verbatim>\<open>int\<close>.
\<close>

definition LoadBalancer_wf :: "LoadBalancer \<Rightarrow> bool" where
  "LoadBalancer_wf lb \<longleftrightarrow>
     0 < slots lb \<and> slots lb \<le> 268435456 \<and> 8 * slots lb \<le> length (uses lb)"

text \<open>
  The slot a scan starts at: the thread-local \<^verbatim>\<open>last\<close> after the first iteration's
  reset. \<open>scan_slot lb last0 j\<close> is the slot of the \<open>j\<close>-th iteration of a scan, counting
  from 0 and wrapping around.
\<close>

definition start :: "nat \<Rightarrow> int \<Rightarrow> nat" where
  "start n last0 = (if n \<le> to_size_t last0 then 0 else nat last0)"

definition scan_slot :: "LoadBalancer \<Rightarrow> int \<Rightarrow> nat \<Rightarrow> nat" where
  "scan_slot lb last0 j = (start (slots lb) last0 + j) mod slots lb"

text \<open>
  The thread-local \<^verbatim>\<open>last\<close> after \<open>k\<close> iterations that did not return: one past the
  slot of the last of them.
\<close>

definition last_after :: "nat \<Rightarrow> nat \<Rightarrow> int \<Rightarrow> int" where
  "last_after n k last0 =
     (if k = 0 then last0 else int ((start n last0 + (k - 1)) mod n) + 1)"

definition scan_order :: "nat \<Rightarrow> nat \<Rightarrow> nat \<Rightarrow> nat list" where
  "scan_order n s k = map (\<lambda>j. (s + j) mod n) [0..<k]"

text \<open>
  The decisions of the loop over a list of slots, without the array accesses: \<open>Inl i\<close>
  when slot \<open>i\<close> is the first idle one, the running minimum and its slot otherwise. The
  proofs relate \<open>acquire_loop\<close> to it once and reason about the list afterwards.
\<close>

fun scan :: "(nat \<Rightarrow> 64 word) \<Rightarrow> nat list \<Rightarrow> 64 word \<Rightarrow> nat \<Rightarrow> nat + (64 word \<times> nat)" where
  "scan c [] mu mi = Inr (mu, mi)"
| "scan c (i # is) mu mi =
     (if c i = 0 then Inl i
      else if c i < mu then scan c is (c i) i
      else scan c is mu mi)"

subsection \<open>Sequences of calls by one thread\<close>

text \<open>
  \<open>acquire_times k\<close> is \<open>k\<close> calls of \<^verbatim>\<open>acquire\<close> one after the other, with the slots
  they return in order.
\<close>

fun acquire_times ::
  "nat \<Rightarrow> LoadBalancer \<Rightarrow> int \<Rightarrow> failure + (int list \<times> LoadBalancer \<times> int)" where
  "acquire_times 0 lb last0 = Inr ([], lb, last0)"
| "acquire_times (Suc k) lb last0 =
     (case LoadBalancer_acquire lb last0 of
        Inl e \<Rightarrow> Inl e
      | Inr (r, lb', last') \<Rightarrow>
          (case acquire_times k lb' last' of
             Inl e \<Rightarrow> Inl e
           | Inr (rs, lb'', last'') \<Rightarrow> Inr (r # rs, lb'', last'')))"

text \<open>
  A sequence of calls of \<^verbatim>\<open>acquire\<close> and \<^verbatim>\<open>free\<close>. \<open>run_calls\<close> executes it and
  keeps, beside the balancer and the thread-local \<^verbatim>\<open>last\<close>, the list \<open>held\<close> of the
  slots that were returned and not freed since. \<open>matched\<close> says that every \<^verbatim>\<open>free\<close> of
  the sequence frees a slot that is held when it is called.
\<close>

datatype lb_call = Acquire | Free int

fun run_calls ::
  "lb_call list \<Rightarrow> LoadBalancer \<Rightarrow> int \<Rightarrow> int list \<Rightarrow> failure + (LoadBalancer \<times> int \<times> int list)" where
  "run_calls [] lb last0 held = Inr (lb, last0, held)"
| "run_calls (Acquire # cs) lb last0 held =
     (case LoadBalancer_acquire lb last0 of
        Inl e \<Rightarrow> Inl e
      | Inr (r, lb', last') \<Rightarrow> run_calls cs lb' last' (r # held))"
| "run_calls (Free i # cs) lb last0 held =
     (case LoadBalancer_free lb i of
        Inl e \<Rightarrow> Inl e
      | Inr lb' \<Rightarrow> run_calls cs lb' last0 (remove1 i held))"

fun matched :: "lb_call list \<Rightarrow> LoadBalancer \<Rightarrow> int \<Rightarrow> int list \<Rightarrow> bool" where
  "matched [] lb last0 held = True"
| "matched (Acquire # cs) lb last0 held =
     (case LoadBalancer_acquire lb last0 of
        Inl e \<Rightarrow> True
      | Inr (r, lb', last') \<Rightarrow> matched cs lb' last' (r # held))"
| "matched (Free i # cs) lb last0 held =
     (i \<in> set held \<and>
      (case LoadBalancer_free lb i of
         Inl e \<Rightarrow> True
       | Inr lb' \<Rightarrow> matched cs lb' last0 (remove1 i held)))"

text \<open>
  \<open>frees_positive\<close> says that every \<^verbatim>\<open>free\<close> of the sequence finds a counter
  above 0, so that its decrement does not wrap around.
\<close>

fun frees_positive :: "lb_call list \<Rightarrow> LoadBalancer \<Rightarrow> int \<Rightarrow> bool" where
  "frees_positive [] lb last0 = True"
| "frees_positive (Acquire # cs) lb last0 =
     (case LoadBalancer_acquire lb last0 of
        Inl e \<Rightarrow> True
      | Inr (r, lb', last') \<Rightarrow> frees_positive cs lb' last')"
| "frees_positive (Free i # cs) lb last0 =
     (0 \<le> i \<and> counter lb (nat i) \<noteq> 0 \<and>
      (case LoadBalancer_free lb i of
         Inl e \<Rightarrow> True
       | Inr lb' \<Rightarrow> frees_positive cs lb' last0))"

text \<open>
  The counters count the held slots, and only slots of the balancer are held.
\<close>

definition counts_held :: "LoadBalancer \<Rightarrow> int list \<Rightarrow> bool" where
  "counts_held lb held \<longleftrightarrow>
     list_all (\<lambda>i. unat (counter lb i) = count_list held (int i)) [0..<slots lb] \<and>
     list_all (\<lambda>r. 0 \<le> r \<and> r < int (slots lb)) held"


section \<open>Registration of the embedded interpreter\<close>

text \<open>
  The four file-scope pointers. A \<^verbatim>\<open>char*\<close> is the 64-bit address it holds and
  \<^verbatim>\<open>nullptr\<close> is address 0. \<^verbatim>\<open>lib_end - lib_start\<close> is a \<^verbatim>\<open>ptrdiff_t\<close>: the
  difference of the two addresses in 64 bits, read as a signed number.
\<close>

record embedded_image =
  embedded_interpreter_so_start :: "64 word"
  embedded_interpreter_so_end :: "64 word"
  embedded_interpreter_cuda_so_start :: "64 word"
  embedded_interpreter_cuda_so_end :: "64 word"

definition register_embedded_interpreter ::
  "embedded_image \<Rightarrow> 64 word \<Rightarrow> 64 word \<Rightarrow> failure + embedded_image" where
  "register_embedded_interpreter g lib_start lib_end =
     (if \<not> lib_start \<noteq> 0 then Inl (Error ''expected non-null lib_start'')
      else if \<not> lib_end \<noteq> 0 then Inl (Error ''expected non-null lib_end'')
      else if \<not> sint (lib_end - lib_start) > 0
        then Inl (Error ''expected embedded_interpreter_libsize > 0'')
      else Inr (g\<lparr>embedded_interpreter_so_start := lib_start,
                  embedded_interpreter_so_end := lib_end\<rparr>))"

text \<open>The variant under \<^verbatim>\<open>FBCODE_CAFFE2\<close>.\<close>

definition register_embedded_interpreter_cuda ::
  "embedded_image \<Rightarrow> 64 word \<Rightarrow> 64 word \<Rightarrow> failure + embedded_image" where
  "register_embedded_interpreter_cuda g lib_start lib_end =
     (if \<not> lib_start \<noteq> 0 then Inl (Error ''expected non-null lib_start'')
      else if \<not> lib_end \<noteq> 0 then Inl (Error ''expected non-null lib_end'')
      else if \<not> sint (lib_end - lib_start) > 0
        then Inl (Error ''expected embedded_interpreter_cuda_libsize > 0'')
      else Inr (g\<lparr>embedded_interpreter_cuda_so_start := lib_start,
                  embedded_interpreter_cuda_so_end := lib_end\<rparr>))"

section \<open>Managers, interpreters, sessions and replicated objects\<close>

text \<open>
  Objects that the code reaches through pointers live in a store, by address:
  the managers and the interpreters. \<open>'v\<close> is the type of the values of the embedded
  runtime (\<^verbatim>\<open>Obj\<close>), \<open>'p\<close> the type of a pickled payload.

  An interpreter is its runtime (\<^verbatim>\<open>pImpl_\<close>) and the manager it was made for
  (\<^verbatim>\<open>manager_\<close>, \<open>None\<close> for \<^verbatim>\<open>nullptr\<close>). Of the runtime the model keeps what
  \<^verbatim>\<open>unpickle_or_get\<close> and \<^verbatim>\<open>unload\<close> work on: the objects it has materialized, by
  object id.
\<close>

record 'v Interpreter =
  pImpl :: "64 word \<rightharpoonup> 'v"
  interp_manager :: "nat option"

text \<open>
  \<^verbatim>\<open>next_object_id_\<close> (a \<^verbatim>\<open>size_t\<close>), \<^verbatim>\<open>instances_\<close> (the addresses of its
  interpreters, in order) and \<^verbatim>\<open>resources_\<close>.
\<close>

record InterpreterManager =
  next_object_id :: "64 word"
  instances :: "nat list"
  resources :: LoadBalancer

text \<open>
  The store, with the thread-local \<^verbatim>\<open>last\<close> of \<^verbatim>\<open>LoadBalancer::acquire\<close> of the
  one thread that runs.
\<close>

record 'v world =
  managers :: "nat \<rightharpoonup> InterpreterManager"
  interpreters :: "nat \<rightharpoonup> 'v Interpreter"
  tls_last :: int

text \<open>
  A session: \<^verbatim>\<open>impl_\<close> (the address of the interpreter whose runtime it works on),
  \<^verbatim>\<open>manager_\<close>, \<^verbatim>\<open>notify_idx_\<close> and \<^verbatim>\<open>self\<close> (\<open>None\<close> while no value is bound).
\<close>

record 'v InterpreterSession =
  impl :: nat
  ses_manager :: "nat option"
  notify_idx :: int
  self :: "'v option"

text \<open>\<^verbatim>\<open>object_id_\<close>, \<^verbatim>\<open>data_\<close> and \<^verbatim>\<open>manager_\<close> of a \<^verbatim>\<open>ReplicatedObjImpl\<close>.\<close>

record 'p ReplicatedObjImpl =
  object_id :: "64 word"
  data :: 'p
  obj_manager :: nat

subsection \<open>What \<^verbatim>\<open>deploy.h\<close> and the runtime define\<close>

text \<open>
  Modelled from the spec: \<^verbatim>\<open>Interpreter::acquire_session\<close>, which \<^verbatim>\<open>deploy.h\<close>
  defines. A session obtained by binding to a specific interpreter is borrowed from that
  interpreter, knows the interpreter's manager and carries no slot to release.
\<close>

definition Interpreter_acquire_session ::
  "'v world \<Rightarrow> nat \<Rightarrow> failure + 'v InterpreterSession" where
  "Interpreter_acquire_session w ip =
     (case interpreters w ip of
        None \<Rightarrow> Inl BadPointer
      | Some X \<Rightarrow>
          Inr \<lparr>impl = ip, ses_manager = interp_manager X, notify_idx = - 1, self = None\<rparr>)"

text \<open>
  Modelled from the spec: \<^verbatim>\<open>InterpreterManager::acquire_one\<close>, which \<^verbatim>\<open>deploy.h\<close>
  defines. It asks the LoadBalancer for a slot and returns a session bound to that
  interpreter, tagged with the slot index for later release.
\<close>

definition acquire_one ::
  "'v world \<Rightarrow> nat \<Rightarrow> failure + ('v InterpreterSession \<times> 'v world)" where
  "acquire_one w m =
     (case managers w m of
        None \<Rightarrow> Inl BadPointer
      | Some M \<Rightarrow>
          (case LoadBalancer_acquire (resources M) (tls_last w) of
             Inl e \<Rightarrow> Inl e
           | Inr (wh, lb, last') \<Rightarrow>
               let w' = w\<lparr>managers := (managers w)(m \<mapsto> M\<lparr>resources := lb\<rparr>),
                          tls_last := last'\<rparr>
               in if wh < 0 \<or> int (length (instances M)) \<le> wh then Inl OutOfBounds
                  else (case Interpreter_acquire_session w' (instances M ! nat wh) of
                          Inl e \<Rightarrow> Inl e
                        | Inr I \<Rightarrow> Inr (I\<lparr>notify_idx := wh\<rparr>, w'))))"

text \<open>
  Modelled from the spec: \<^verbatim>\<open>InterpreterSessionImpl::unpickle_or_get\<close> of the runtime.
  It looks up an object this instance has materialized already, by id, or deserializes
  the payload and associates the result with the id for later lookups.
\<close>

definition unpickle_or_get ::
  "('p \<Rightarrow> failure + 'v) \<Rightarrow> (64 word \<rightharpoonup> 'v) \<Rightarrow> 64 word \<Rightarrow> 'p \<Rightarrow> failure + ('v \<times> (64 word \<rightharpoonup> 'v))" where
  "unpickle_or_get unpickle tbl oid payload =
     (case tbl oid of
        Some v \<Rightarrow> Inr (v, tbl)
      | None \<Rightarrow>
          (case unpickle payload of
             Inl e \<Rightarrow> Inl e
           | Inr v \<Rightarrow> Inr (v, tbl(oid \<mapsto> v))))"

text \<open>
  Modelled from the spec: \<^verbatim>\<open>InterpreterSessionImpl::unload\<close> of the runtime. It drops
  this instance's materialization for the id.
\<close>

definition impl_unload :: "'v world \<Rightarrow> nat \<Rightarrow> 64 word \<Rightarrow> failure + 'v world" where
  "impl_unload w ip oid =
     (case interpreters w ip of
        None \<Rightarrow> Inl BadPointer
      | Some X \<Rightarrow>
          Inr (w\<lparr>interpreters := (interpreters w)(ip \<mapsto> X\<lparr>pImpl := (pImpl X)(oid := None)\<rparr>)\<rparr>))"

text \<open>An interpreter without its materialization of an object id.\<close>

definition drop_id :: "64 word \<Rightarrow> 'v Interpreter \<Rightarrow> 'v Interpreter" where
  "drop_id oid X = X\<lparr>pImpl := (pImpl X)(oid := None)\<rparr>"

subsection \<open>The functions of \<^verbatim>\<open>deploy.cpp\<close>\<close>

text \<open>
  \<^verbatim>\<open>TORCH_DEPLOY_TRY\<close> and \<^verbatim>\<open>TORCH_DEPLOY_SAFE_CATCH_RETHROW\<close>, macros of
  \<^verbatim>\<open>deploy.h\<close>, rethrow a failure of the body as an error with its message; the model
  passes the failure on as it is.
\<close>

definition InterpreterSession_from_movable ::
  "('p \<Rightarrow> failure + 'v) \<Rightarrow> 'v world \<Rightarrow> 'v InterpreterSession \<Rightarrow> 'p ReplicatedObjImpl
     \<Rightarrow> failure + ('v \<times> 'v world)" where
  "InterpreterSession_from_movable unpickle w I obj =
     (case interpreters w (impl I) of
        None \<Rightarrow> Inl BadPointer
      | Some X \<Rightarrow>
          (case unpickle_or_get unpickle (pImpl X) (object_id obj) (data obj) of
             Inl e \<Rightarrow> Inl e
           | Inr (v, tbl) \<Rightarrow>
               Inr (v, w\<lparr>interpreters := (interpreters w)(impl I \<mapsto> X\<lparr>pImpl := tbl\<rparr>)\<rparr>)))"

text \<open>
  \<^verbatim>\<open>InterpreterSession::~InterpreterSession\<close>.
\<close>

definition InterpreterSession_dtor ::
  "'v world \<Rightarrow> 'v InterpreterSession \<Rightarrow> failure + 'v world" where
  "InterpreterSession_dtor w I =
     (if ses_manager I \<noteq> None \<and> notify_idx I \<ge> 0 then
        (case managers w (the (ses_manager I)) of
           None \<Rightarrow> Inl BadPointer
         | Some M \<Rightarrow>
             (case LoadBalancer_free (resources M) (notify_idx I) of
                Inl e \<Rightarrow> Inl e
              | Inr lb \<Rightarrow>
                  Inr (w\<lparr>managers := (managers w)(the (ses_manager I) \<mapsto> M\<lparr>resources := lb\<rparr>)\<rparr>)))
      else Inr w)"

text \<open>
  \<^verbatim>\<open>ReplicatedObj::acquire_session\<close>. When \<^verbatim>\<open>from_movable\<close> fails, the session
  \<^verbatim>\<open>I\<close> is destroyed on the way out, and the failure of the call is that of
  \<^verbatim>\<open>from_movable\<close>.
\<close>

definition ReplicatedObj_acquire_session ::
  "('p \<Rightarrow> failure + 'v) \<Rightarrow> 'v world \<Rightarrow> 'p ReplicatedObjImpl \<Rightarrow> nat option
     \<Rightarrow> failure + ('v InterpreterSession \<times> 'v world)" where
  "ReplicatedObj_acquire_session unpickle w obj on_this_interpreter =
     (case (case on_this_interpreter of
              Some ip \<Rightarrow>
                (case Interpreter_acquire_session w ip of
                   Inl e \<Rightarrow> Inl e
                 | Inr I \<Rightarrow> Inr (I, w))
            | None \<Rightarrow> acquire_one w (obj_manager obj)) of
        Inl e \<Rightarrow> Inl e
      | Inr (I, w1) \<Rightarrow>
          (case InterpreterSession_from_movable unpickle w1 I obj of
             Inl e \<Rightarrow> Inl e
           | Inr (v, w2) \<Rightarrow> Inr (I\<lparr>self := Some v\<rparr>, w2)))"

text \<open>
  \<^verbatim>\<open>ReplicatedObjImpl::unload\<close>. \<open>unload_here\<close> is the part after the \<^verbatim>\<open>if\<close>, for an
  interpreter that is given: the session, the runtime's \<^verbatim>\<open>unload\<close>, and the end of the
  session's scope. \<open>unload_each\<close> is the loop over \<^verbatim>\<open>all_instances()\<close>; its call
  \<^verbatim>\<open>unload(&interp)\<close> has an interpreter, so it runs \<open>unload_here\<close>.
\<close>

definition unload_here :: "'v world \<Rightarrow> 'p ReplicatedObjImpl \<Rightarrow> nat \<Rightarrow> failure + 'v world" where
  "unload_here w obj ip =
     (case Interpreter_acquire_session w ip of
        Inl e \<Rightarrow> Inl e
      | Inr I \<Rightarrow>
          (case impl_unload w (impl I) (object_id obj) of
             Inl e \<Rightarrow> Inl e
           | Inr w1 \<Rightarrow> InterpreterSession_dtor w1 I))"

fun unload_each :: "'v world \<Rightarrow> 'p ReplicatedObjImpl \<Rightarrow> nat list \<Rightarrow> failure + 'v world" where
  "unload_each w obj [] = Inr w"
| "unload_each w obj (ip # ips) =
     (case unload_here w obj ip of
        Inl e \<Rightarrow> Inl e
      | Inr w1 \<Rightarrow> unload_each w1 obj ips)"

definition ReplicatedObjImpl_unload ::
  "'v world \<Rightarrow> 'p ReplicatedObjImpl \<Rightarrow> nat option \<Rightarrow> failure + 'v world" where
  "ReplicatedObjImpl_unload w obj on_this_interpreter =
     (case on_this_interpreter of
        None \<Rightarrow>
          (case managers w (obj_manager obj) of
             None \<Rightarrow> Inl BadPointer
           | Some M \<Rightarrow> unload_each w obj (instances M))
      | Some ip \<Rightarrow> unload_here w obj ip)"

text \<open>\<^verbatim>\<open>ReplicatedObjImpl::~ReplicatedObjImpl\<close>.\<close>

definition ReplicatedObjImpl_dtor :: "'v world \<Rightarrow> 'p ReplicatedObjImpl \<Rightarrow> failure + 'v world" where
  "ReplicatedObjImpl_dtor w obj = ReplicatedObjImpl_unload w obj None"

text \<open>
  \<^verbatim>\<open>InterpreterSession::create_movable\<close>. \<open>pickle\<close> is the runtime's
  \<^verbatim>\<open>InterpreterSessionImpl::pickle\<close>, applied to \<^verbatim>\<open>self\<close> and the object.
\<close>

definition InterpreterSession_create_movable ::
  "('v option \<Rightarrow> 'v \<Rightarrow> failure + 'p) \<Rightarrow> 'v world \<Rightarrow> 'v InterpreterSession \<Rightarrow> 'v
     \<Rightarrow> failure + ('p ReplicatedObjImpl \<times> 'v world)" where
  "InterpreterSession_create_movable pickle w I obj =
     (case ses_manager I of
        None \<Rightarrow>
          Inl (Error ''Can only create a movable object when the session was created from an interpreter that is part of a InterpreterManager'')
      | Some m \<Rightarrow>
          (case pickle (self I) obj of
             Inl e \<Rightarrow> Inl e
           | Inr pickled \<Rightarrow>
               (case managers w m of
                  None \<Rightarrow> Inl BadPointer
                | Some M \<Rightarrow>
                    Inr (\<lparr>object_id = next_object_id M, data = pickled, obj_manager = m\<rparr>,
                         w\<lparr>managers := (managers w)(m \<mapsto> M\<lparr>next_object_id := next_object_id M + 1\<rparr>)\<rparr>))))"

text \<open>
  Calls of \<^verbatim>\<open>create_movable\<close> one after the other, each with its session and object,
  and the objects they return in order.
\<close>

fun create_all ::
  "('v option \<Rightarrow> 'v \<Rightarrow> failure + 'p) \<Rightarrow> 'v world \<Rightarrow> ('v InterpreterSession \<times> 'v) list
     \<Rightarrow> failure + ('p ReplicatedObjImpl list \<times> 'v world)" where
  "create_all pickle w [] = Inr ([], w)"
| "create_all pickle w ((I, v) # rs) =
     (case InterpreterSession_create_movable pickle w I v of
        Inl e \<Rightarrow> Inl e
      | Inr (obj, w1) \<Rightarrow>
          (case create_all pickle w1 rs of
             Inl e \<Rightarrow> Inl e
           | Inr (objs, w2) \<Rightarrow> Inr (obj # objs, w2)))"

text \<open>
  A manager as its constructor leaves it: a balancer with one slot for each of its
  interpreters, and interpreters that were made for it (\<^verbatim>\<open>instances_.emplace_back(this)\<close>).
\<close>

definition manager_wf :: "'v world \<Rightarrow> nat \<Rightarrow> bool" where
  "manager_wf w m \<longleftrightarrow>
     (case managers w m of
        None \<Rightarrow> False
      | Some M \<Rightarrow>
          LoadBalancer_wf (resources M) \<and>
          length (instances M) = slots (resources M) \<and>
          list_all (\<lambda>ip. case interpreters w ip of
                           None \<Rightarrow> False
                         | Some X \<Rightarrow> interp_manager X = Some m) (instances M))"


section \<open>Example states\<close>

text \<open>
  A pool of three interpreters with 2, 1 and 1 sessions, and the pool of \<open>n\<close> idle
  interpreters.
\<close>

definition pool3 :: LoadBalancer where
  "pool3 = \<lparr>uses = [2, 0, 0, 0, 0, 0, 0, 0, 1, 0, 0, 0, 0, 0, 0, 0, 1, 0, 0, 0, 0, 0, 0, 0],
            slots = 3\<rparr>"

definition idle_pool :: "nat \<Rightarrow> LoadBalancer" where
  "idle_pool n = \<lparr>uses = replicate (8 * n) 0, slots = n\<rparr>"

text \<open>A pool of two whose counters are both \<^verbatim>\<open>SIZE_MAX\<close>.\<close>

definition full_pool2 :: LoadBalancer where
  "full_pool2 = \<lparr>uses = [18446744073709551615, 0, 0, 0, 0, 0, 0, 0,
                           18446744073709551615, 0, 0, 0, 0, 0, 0, 0],
                  slots = 2\<rparr>"

text \<open>
  A store with one manager, at address 7, of two idle interpreters, at 10 and 11, and
  an interpreter at 20 that belongs to no manager. Interpreter 10 has materialized
  object 3. The values of the runtime and the payloads are numbers. The other states are
  this one after an acquisition, an unload or a materialization.
\<close>

definition manager7 :: InterpreterManager where
  "manager7 = \<lparr>next_object_id = 5, instances = [10, 11], resources = idle_pool 2\<rparr>"

definition world2 :: "nat world" where
  "world2 = \<lparr>managers = [7 \<mapsto> manager7],
             interpreters = [10 \<mapsto> \<lparr>pImpl = [3 \<mapsto> 30], interp_manager = Some 7\<rparr>,
                             11 \<mapsto> \<lparr>pImpl = Map.empty, interp_manager = Some 7\<rparr>,
                             20 \<mapsto> \<lparr>pImpl = Map.empty, interp_manager = None\<rparr>],
             tls_last = 0\<rparr>"

definition obj3 :: "nat ReplicatedObjImpl" where
  "obj3 = \<lparr>object_id = 3, data = 30, obj_manager = 7\<rparr>"

definition session_lb :: "nat InterpreterSession" where
  "session_lb = \<lparr>impl = 10, ses_manager = Some 7, notify_idx = 0, self = None\<rparr>"

definition session_on11 :: "nat InterpreterSession" where
  "session_on11 = \<lparr>impl = 11, ses_manager = Some 7, notify_idx = - 1, self = None\<rparr>"

definition session_alone :: "nat InterpreterSession" where
  "session_alone = \<lparr>impl = 20, ses_manager = None, notify_idx = - 1, self = None\<rparr>"

definition world2_busy :: "nat world" where
  "world2_busy = world2\<lparr>managers := [7 \<mapsto> manager7\<lparr>resources := set_counter (idle_pool 2) 0 1\<rparr>]\<rparr>"

definition world2_unloaded :: "nat world" where
  "world2_unloaded =
     world2\<lparr>interpreters := (\<lambda>a. if a \<in> set (instances manager7)
                                 then map_option (drop_id (object_id obj3)) (interpreters world2 a)
                                 else interpreters world2 a)\<rparr>"

definition world2_unloaded10 :: "nat world" where
  "world2_unloaded10 =
     world2\<lparr>interpreters := (interpreters world2)
        (10 \<mapsto> \<lparr>pImpl = Map.empty, interp_manager = Some 7\<rparr>)\<rparr>"

definition world2_used :: "nat world" where
  "world2_used = world2_busy\<lparr>interpreters := (interpreters world2_busy)
      (10 \<mapsto> \<lparr>pImpl = [3 \<mapsto> 30], interp_manager = Some 7\<rparr>)\<rparr>"

definition world2_on11 :: "nat world" where
  "world2_on11 = world2\<lparr>interpreters := (interpreters world2)
      (11 \<mapsto> \<lparr>pImpl = [3 \<mapsto> 31], interp_manager = Some 7\<rparr>)\<rparr>"

definition no_image :: embedded_image where
  "no_image = \<lparr>embedded_interpreter_so_start = 0, embedded_interpreter_so_end = 0,
               embedded_interpreter_cuda_so_start = 0, embedded_interpreter_cuda_so_end = 0\<rparr>"

section \<open>Arithmetic of the scan\<close>

lemma to_size_t_int: "is_int x \<Longrightarrow> to_size_t x = (if x < 0 then nat (x + 2 ^ 64) else nat x)"
proof -
  assume a: "is_int x"
  show ?thesis
  proof (cases "x < 0")
    case True
    have "x mod 2 ^ 64 = (x + 2 ^ 64) mod 2 ^ 64" by simp
    also have "\<dots> = x + 2 ^ 64"
      using a True by (intro mod_pos_pos_trivial) (simp_all add: is_int_def INT_MIN_def)
    finally show ?thesis using True by (simp add: to_size_t_def)
  next
    case False
    have "x mod 2 ^ 64 = x"
      using a False by (intro mod_pos_pos_trivial) (simp_all add: is_int_def INT_MAX_def)
    then show ?thesis using False by (simp add: to_size_t_def)
  qed
qed

lemma start_conv:
  assumes "is_int x" "n \<le> 268435456"
  shows "start n x = (if x < 0 \<or> int n \<le> x then 0 else nat x)"
  using assms unfolding start_def to_size_t_int [OF assms(1)]
  by (auto simp: is_int_def INT_MIN_def INT_MAX_def)

lemma start_less: "is_int x \<Longrightarrow> n \<le> 268435456 \<Longrightarrow> 0 < n \<Longrightarrow> start n x < n"
  by (auto simp: start_conv)

lemma start_succ:
  assumes "s < n" "n \<le> 268435456"
  shows "start n (int s + 1) = (s + 1) mod n"
proof -
  have "is_int (int s + 1)" using assms by (simp add: is_int_def INT_MIN_def INT_MAX_def)
  from start_conv [OF this assms(2)] show ?thesis
    using assms by (auto simp: mod_Suc)
qed

lemma scan_order_Suc:
  "scan_order n s (Suc k) = (s mod n) # scan_order n ((s + 1) mod n) k"
proof -
  have "[0..<Suc k] = 0 # map Suc [0..<k]"
    using upt_conv_Cons [of 0 "Suc k"] by (simp only: map_Suc_upt zero_less_Suc)
  moreover have "\<And>j. ((s + 1) mod n + j) mod n = (s + Suc j) mod n"
    by (simp add: mod_add_left_eq)
  ultimately show ?thesis
    by (simp add: scan_order_def comp_def del: upt_Suc)
qed

section \<open>The loop of \<^verbatim>\<open>acquire\<close>\<close>

lemma cas_at:
  assumes "8 * s < length mem"
  shows "atomic_compare_exchange_n mem (8 * int s) e d =
     (if mem ! (8 * s) = e then Inr (True, e, mem[8 * s := d]) else Inr (False, mem ! (8 * s), mem))"
proof -
  have "nat (8 * int s) = 8 * s" by (simp add: nat_mult_distrib)
  moreover have "\<not> (8 * int s < 0 \<or> int (length mem) \<le> 8 * int s)" using assms by auto
  ultimately show ?thesis unfolding atomic_compare_exchange_n_def by (simp only: if_False)
qed

lemma fetch_add_at:
  assumes "8 * s < length mem"
  shows "atomic_fetch_add mem (8 * int s) v = Inr (mem[8 * s := mem ! (8 * s) + v])"
proof -
  have "nat (8 * int s) = 8 * s" by (simp add: nat_mult_distrib)
  moreover have "\<not> (8 * int s < 0 \<or> int (length mem) \<le> 8 * int s)" using assms by auto
  ultimately show ?thesis unfolding atomic_fetch_add_def by (simp only: if_False)
qed

lemma fetch_sub_at:
  assumes "8 * s < length mem"
  shows "atomic_fetch_sub mem (8 * int s) v = Inr (mem[8 * s := mem ! (8 * s) - v])"
proof -
  have "nat (8 * int s) = 8 * s" by (simp add: nat_mult_distrib)
  moreover have "\<not> (8 * int s < 0 \<or> int (length mem) \<le> 8 * int s)" using assms by auto
  ultimately show ?thesis unfolding atomic_fetch_sub_def by (simp only: if_False)
qed

lemma times8_at: "s < n \<Longrightarrow> n \<le> 268435456 \<Longrightarrow> times8 (int s) = Inr (8 * int s)"
  by (simp add: times8_def is_int_def INT_MIN_def INT_MAX_def)

lemma acquire_loop_scan:
  assumes "LoadBalancer_wf lb" "is_int last0" "k \<le> slots lb" "mi < slots lb"
  shows "acquire_loop k lb last0 mu (int mi) =
     (case scan (counter lb) (scan_order (slots lb) (start (slots lb) last0) k) mu mi of
        Inl i \<Rightarrow> Inr (int i, set_counter lb i 1, int i)
      | Inr (mu', mi') \<Rightarrow>
          Inr (int mi', set_counter lb mi' (counter lb mi' + 1), last_after (slots lb) k last0))"
  using assms
proof (induction k arbitrary: last0 mu mi)
  case 0
  have "8 * mi < length (uses lb)" using 0 by (simp add: LoadBalancer_wf_def)
  moreover have "times8 (int mi) = Inr (8 * int mi)"
    using 0 by (intro times8_at [of mi "slots lb"]) (simp_all add: LoadBalancer_wf_def)
  ultimately show ?case
    by (simp add: scan_order_def fetch_add_at set_counter_def counter_def last_after_def)
next
  case (Suc k)
  let ?n = "slots lb"
  let ?s = "start ?n last0"
  have n: "0 < ?n" "?n \<le> 268435456" "8 * ?n \<le> length (uses lb)"
    using Suc.prems(1) by (auto simp: LoadBalancer_wf_def)
  have s: "?s < ?n" using n Suc.prems(2) by (simp add: start_less)
  have norm: "(if ?n \<le> to_size_t last0 then 0 else last0) = int ?s"
    using n(2) Suc.prems(2) unfolding start_def to_size_t_int [OF Suc.prems(2)]
    by (auto simp: is_int_def INT_MIN_def INT_MAX_def)
  have t8: "times8 (int ?s) = Inr (8 * int ?s)"
    using s n by (simp add: times8_at)
  have inb: "8 * ?s < length (uses lb)"
    using s n by auto
  have nmax: "int ?s \<noteq> INT_MAX" using s n by (simp add: INT_MAX_def)
  have isint: "is_int (int ?s + 1)" using s n by (simp add: is_int_def INT_MIN_def INT_MAX_def)
  have so: "scan_order ?n ?s (Suc k) = ?s # scan_order ?n (start ?n (int ?s + 1)) k"
    using scan_order_Suc [of ?n ?s k] start_succ [OF s n(2)] s by simp
  have kle: "k \<le> ?n" using Suc.prems(3) by simp
  have la: "last_after ?n k (int ?s + 1) = last_after ?n (Suc k) last0"
  proof (cases k)
    case 0
    then show ?thesis using s by (simp add: last_after_def)
  next
    case (Suc k')
    have "((?s + 1) mod ?n + k') mod ?n = (?s + 1 + k') mod ?n"
      by (simp only: mod_add_left_eq)
    then show ?thesis
      using Suc start_succ [OF s n(2)] by (simp add: last_after_def)
  qed
  have step: "acquire_loop (Suc k) lb last0 mu (int mi) =
     (if counter lb ?s = 0 then Inr (int ?s, set_counter lb ?s 1, int ?s)
      else if counter lb ?s < mu then acquire_loop k lb (int ?s + 1) (counter lb ?s) (int ?s)
      else acquire_loop k lb (int ?s + 1) mu (int mi))"
    unfolding acquire_loop.simps norm Let_def t8
    by (simp add: cas_at [OF inb] nmax counter_def set_counter_def)
  show ?case
  proof (cases "counter lb ?s = 0")
    case True
    then show ?thesis
      unfolding step so by simp
  next
    case False
    note nz = this
    show ?thesis
    proof (cases "counter lb ?s < mu")
      case True
      from Suc.IH [OF Suc.prems(1) isint kle s, of "counter lb ?s"] nz True show ?thesis
        unfolding step so la by simp
    next
      case False
      from Suc.IH [OF Suc.prems(1) isint kle Suc.prems(4), of mu] nz False show ?thesis
        unfolding step so la by simp
    qed
  qed
qed





lemma scan_Inl:
  "scan c is mu mi = Inl i \<Longrightarrow>
     \<exists>j<length is. is ! j = i \<and> c i = 0 \<and> (\<forall>j'<j. c (is ! j') \<noteq> 0)"
proof (induction "is" arbitrary: mu mi)
  case Nil
  then show ?case by simp
next
  case (Cons a "is")
  show ?case
  proof (cases "c a = 0")
    case True
    with Cons.prems have "a = i" by simp
    with True show ?thesis by (intro exI [of _ 0]) simp
  next
    case False
    with Cons.prems have "\<exists>mu2 mi2. scan c is mu2 mi2 = Inl i"
      by (auto split: if_splits)
    then obtain j where j: "j < length is" "is ! j = i" "c i = 0" "\<forall>j'<j. c (is ! j') \<noteq> 0"
      using Cons.IH by blast
    have "\<forall>j'<Suc j. c ((a # is) ! j') \<noteq> 0"
      using False j(4) by (auto simp: nth_Cons split: nat.splits)
    with j show ?thesis by (intro exI [of _ "Suc j"]) simp
  qed
qed

lemma scan_Inr:
  "scan c is mu mi = Inr (mu', mi') \<Longrightarrow>
     (\<forall>x\<in>set is. c x \<noteq> 0) \<and> mu' \<le> mu \<and> (\<forall>x\<in>set is. mu' \<le> c x)"
proof (induction "is" arbitrary: mu mi)
  case Nil
  then show ?case by simp
next
  case (Cons a "is")
  from Cons.prems have nz: "c a \<noteq> 0" by (auto split: if_splits)
  show ?case
  proof (cases "c a < mu")
    case True
    with nz Cons.prems have "scan c is (c a) a = Inr (mu', mi')" by simp
    from Cons.IH [OF this] nz True show ?thesis by auto
  next
    case False
    with nz Cons.prems have "scan c is mu mi = Inr (mu', mi')" by simp
    from Cons.IH [OF this] nz False show ?thesis by auto
  qed
qed

lemma scan_Inr_first:
  "scan c is mu mi = Inr (mu', mi') \<Longrightarrow>
     (if mu' < mu
      then \<exists>j<length is. is ! j = mi' \<and> c mi' = mu' \<and> (\<forall>j'<j. mu' < c (is ! j'))
      else mi' = mi \<and> mu' = mu)"
proof (induction "is" arbitrary: mu mi)
  case Nil
  then show ?case by simp
next
  case (Cons a "is")
  from Cons.prems have nz: "c a \<noteq> 0" by (auto split: if_splits)
  show ?case
  proof (cases "c a < mu")
    case True
    with nz Cons.prems have rec: "scan c is (c a) a = Inr (mu', mi')" by simp
    show ?thesis
    proof (cases "mu' < c a")
      case lt: True
      with Cons.IH [OF rec] obtain j where
        j: "j < length is" "is ! j = mi'" "c mi' = mu'" "\<forall>j'<j. mu' < c (is ! j')"
        by auto
      have "\<forall>j'<Suc j. mu' < c ((a # is) ! j')"
        using lt j(4) by (auto simp: nth_Cons split: nat.splits)
      moreover have "mu' < mu" using lt True by simp
      ultimately show ?thesis using j by (auto intro!: exI [of _ "Suc j"])
    next
      case False
      with Cons.IH [OF rec] have "mi' = a" "mu' = c a" by auto
      with True show ?thesis by (auto intro!: exI [of _ 0])
    qed
  next
    case False
    with nz Cons.prems have rec: "scan c is mu mi = Inr (mu', mi')" by simp
    show ?thesis
    proof (cases "mu' < mu")
      case lt: True
      with Cons.IH [OF rec] obtain j where
        j: "j < length is" "is ! j = mi'" "c mi' = mu'" "\<forall>j'<j. mu' < c (is ! j')"
        by auto
      have "mu' < c a" using lt False by simp
      then have "\<forall>j'<Suc j. mu' < c ((a # is) ! j')"
        using j(4) by (auto simp: nth_Cons split: nat.splits)
      then show ?thesis using j lt by (auto intro!: exI [of _ "Suc j"])
    next
      case F2: False
      with Cons.IH [OF rec] show ?thesis by auto
    qed
  qed
qed

lemma scan_order_nth: "j < k \<Longrightarrow> scan_order n s k ! j = (s + j) mod n"
  by (simp add: scan_order_def)

lemma scan_order_length: "length (scan_order n s k) = k"
  by (simp add: scan_order_def)

lemma scan_order_set: "0 < n \<Longrightarrow> set (scan_order n s n) = {..<n}"
proof
  show "set (scan_order n s n) \<subseteq> {..<n}" if "0 < n"
    using that by (auto simp: scan_order_def)
  show "{..<n} \<subseteq> set (scan_order n s n)" if "0 < n"
  proof
    fix x assume "x \<in> {..<n}"
    then have x: "x < n" by simp
    let ?j = "(x + n - s mod n) mod n"
    have "(s + ?j) mod n = (s + (x + n - s mod n)) mod n"
      by (simp only: mod_add_right_eq)
    also have "\<dots> = (s mod n + (x + n - s mod n)) mod n"
      by (simp only: mod_add_left_eq)
    also have "s mod n + (x + n - s mod n) = x + n"
    proof -
      have "s mod n < n" using that by simp
      then show ?thesis by arith
    qed
    finally have "(s + ?j) mod n = (x + n) mod n" .
    then have "(s + ?j) mod n = x" using x by simp
    moreover have "?j < n" using that by simp
    ultimately show "x \<in> set (scan_order n s n)"
      unfolding scan_order_def by (auto simp: image_iff intro!: bexI [of _ ?j])
  qed
qed

lemma word64_less_max: "(x :: 64 word) \<noteq> SIZE_MAX \<Longrightarrow> x < SIZE_MAX"
  unfolding SIZE_MAX_def by (simp add: word_order.not_eq_extremum)





lemma scan_slot_less: "LoadBalancer_wf lb \<Longrightarrow> scan_slot lb last0 j < slots lb"
  by (simp add: scan_slot_def LoadBalancer_wf_def)

lemma is_int_last_after:
  assumes "LoadBalancer_wf lb"
  shows "is_int (last_after (slots lb) (slots lb) last0)"
proof -
  have n: "0 < slots lb" "slots lb \<le> 268435456" using assms by (simp_all add: LoadBalancer_wf_def)
  define m where "m = (start (slots lb) last0 + (slots lb - 1)) mod slots lb"
  have "m < slots lb" using n by (simp add: m_def)
  then have "int m + 1 \<le> 268435456" using n by simp
  moreover have "last_after (slots lb) (slots lb) last0 = int m + 1"
    using n by (simp add: last_after_def m_def)
  ultimately show ?thesis
    by (simp add: is_int_def INT_MIN_def INT_MAX_def)
qed

lemma last_after_scan_slot:
  "0 < slots lb \<Longrightarrow>
     last_after (slots lb) (slots lb) last0 = int (scan_slot lb last0 (slots lb - 1)) + 1"
  by (simp add: last_after_def scan_slot_def)

lemma acquire_cases:
  assumes wf: "LoadBalancer_wf lb" and li: "is_int last0"
  shows "\<exists>j < slots lb.
     (counter lb (scan_slot lb last0 j) = 0 \<and>
      (\<forall>j'<j. counter lb (scan_slot lb last0 j') \<noteq> 0) \<and>
      LoadBalancer_acquire lb last0 =
        Inr (int (scan_slot lb last0 j), set_counter lb (scan_slot lb last0 j) 1,
             int (scan_slot lb last0 j)))
   \<or> (counter lb (scan_slot lb last0 j) \<noteq> SIZE_MAX \<and>
      (\<forall>j' < slots lb. counter lb (scan_slot lb last0 j') \<noteq> 0) \<and>
      (\<forall>j' < slots lb. counter lb (scan_slot lb last0 j) \<le> counter lb (scan_slot lb last0 j')) \<and>
      (\<forall>j'<j. counter lb (scan_slot lb last0 j) < counter lb (scan_slot lb last0 j')) \<and>
      LoadBalancer_acquire lb last0 =
        Inr (int (scan_slot lb last0 j),
             set_counter lb (scan_slot lb last0 j) (counter lb (scan_slot lb last0 j) + 1),
             last_after (slots lb) (slots lb) last0))
   \<or> ((\<forall>j' < slots lb. counter lb (scan_slot lb last0 j') = SIZE_MAX) \<and>
      LoadBalancer_acquire lb last0 =
        Inr (0, set_counter lb 0 (counter lb 0 + 1), last_after (slots lb) (slots lb) last0))"
proof -
  let ?n = "slots lb"
  let ?c = "counter lb"
  let ?ord = "scan_order ?n (start ?n last0) ?n"
  let ?sl = "scan_slot lb last0"
  have n: "0 < ?n" using wf by (simp add: LoadBalancer_wf_def)
  have nth: "\<And>j. j < ?n \<Longrightarrow> ?ord ! j = ?sl j"
    by (simp add: scan_order_nth scan_slot_def)
  have len: "length ?ord = ?n" by (simp add: scan_order_length)
  have mem: "\<And>j. j < ?n \<Longrightarrow> ?sl j \<in> set ?ord"
    using nth len by (metis nth_mem)
  let ?l = "last_after ?n ?n last0"
  from acquire_loop_scan [OF wf li order_refl n, of SIZE_MAX] have
    acq: "LoadBalancer_acquire lb last0 =
      (case scan ?c ?ord SIZE_MAX 0 of
         Inl i \<Rightarrow> Inr (int i, set_counter lb i 1, int i)
       | Inr (mu', mi') \<Rightarrow> Inr (int mi', set_counter lb mi' (?c mi' + 1), ?l))"
    unfolding LoadBalancer_acquire_def by simp
  show ?thesis
  proof (cases "scan ?c ?ord SIZE_MAX 0")
    case (Inl i)
    from scan_Inl [OF Inl] obtain j where
      j: "j < ?n" "?ord ! j = i" "?c i = 0" "\<forall>j'<j. ?c (?ord ! j') \<noteq> 0"
      unfolding len by blast
    have i: "i = ?sl j" using j(1,2) nth by simp
    have "\<forall>j'<j. ?c (?sl j') \<noteq> 0" using j(1,4) nth by auto
    with j(1,3) i acq Inl show ?thesis
      by (intro exI [of _ j]) simp
  next
    case (Inr p)
    obtain mu' mi' where p: "p = (mu', mi')" by (cases p)
    note sc = Inr [unfolded p]
    from scan_Inr [OF sc] have
      nz: "\<forall>x\<in>set ?ord. ?c x \<noteq> 0" and le: "\<forall>x\<in>set ?ord. mu' \<le> ?c x" by auto
    have nz': "\<forall>j'<?n. ?c (?sl j') \<noteq> 0" using nz mem by blast
    have le': "\<forall>j'<?n. mu' \<le> ?c (?sl j')" using le mem by blast
    have acq': "LoadBalancer_acquire lb last0 = Inr (int mi', set_counter lb mi' (?c mi' + 1), ?l)"
      using acq sc by simp
    show ?thesis
    proof (cases "mu' < SIZE_MAX")
      case True
      with scan_Inr_first [OF sc] obtain j where
        j: "j < ?n" "?ord ! j = mi'" "?c mi' = mu'" "\<forall>j'<j. mu' < ?c (?ord ! j')"
        unfolding len by auto
      have i: "mi' = ?sl j" using j(1,2) nth by simp
      have "\<forall>j'<j. mu' < ?c (?sl j')" using j(1,4) nth by auto
      moreover have "?c (?sl j) \<noteq> SIZE_MAX" using True j(3) i by auto
      ultimately show ?thesis using j(1,3) i le' nz' acq'
        by (intro exI [of _ j] disjI2 disjI1) auto
    next
      case False
      with scan_Inr_first [OF sc] have eq: "mi' = 0" "mu' = SIZE_MAX" by auto
      have "\<forall>j'<?n. ?c (?sl j') = SIZE_MAX"
      proof (intro allI impI)
        fix j' assume "j' < ?n"
        with le' eq have "SIZE_MAX \<le> ?c (?sl j')" by simp
        then show "?c (?sl j') = SIZE_MAX"
          using word64_less_max [of "?c (?sl j')"] by (meson leD)
      qed
      with acq' eq n show ?thesis
        by (intro exI [of _ 0] disjI2) auto
    qed
  qed
qed

lemma scan_slot_onto:
  assumes "LoadBalancer_wf lb" "i < slots lb"
  shows "\<exists>j < slots lb. scan_slot lb last0 j = i"
proof -
  have "0 < slots lb" using assms by (simp add: LoadBalancer_wf_def)
  from scan_order_set [OF this, of "start (slots lb) last0"] assms(2)
  have "i \<in> set (scan_order (slots lb) (start (slots lb) last0) (slots lb))" by simp
  then show ?thesis by (auto simp: scan_order_def scan_slot_def)
qed

section \<open>What a call of \<^verbatim>\<open>acquire\<close> and of \<^verbatim>\<open>free\<close> does\<close>

lemma counter_set_counter:
  assumes "8 * i < length (uses lb)"
  shows "counter (set_counter lb i v) i' = (if i' = i then v else counter lb i')"
  using assms by (simp add: counter_def set_counter_def nth_list_update)

lemma slots_set_counter: "slots (set_counter lb i v) = slots lb"
  by (simp add: set_counter_def)

lemma wf_set_counter: "LoadBalancer_wf lb \<Longrightarrow> LoadBalancer_wf (set_counter lb i v)"
  by (simp add: LoadBalancer_wf_def set_counter_def)

lemma wf_index: "LoadBalancer_wf lb \<Longrightarrow> i < slots lb \<Longrightarrow> 8 * i < length (uses lb)"
  by (simp add: LoadBalancer_wf_def)

lemma acquire_fast:
  assumes wf: "LoadBalancer_wf lb" and li: "is_int last0" and j: "j < slots lb"
    and z: "counter lb (scan_slot lb last0 j) = 0"
    and nz: "\<forall>j'<j. counter lb (scan_slot lb last0 j') \<noteq> 0"
  shows "LoadBalancer_acquire lb last0 =
    Inr (int (scan_slot lb last0 j), set_counter lb (scan_slot lb last0 j) 1,
         int (scan_slot lb last0 j))"
proof -
  have m: "(0 :: 64 word) \<noteq> SIZE_MAX" by (simp add: SIZE_MAX_def)
  from acquire_cases [OF wf li] obtain j1 where j1: "j1 < slots lb" and
    d: "(counter lb (scan_slot lb last0 j1) = 0 \<and>
      (\<forall>j'<j1. counter lb (scan_slot lb last0 j') \<noteq> 0) \<and>
      LoadBalancer_acquire lb last0 =
        Inr (int (scan_slot lb last0 j1), set_counter lb (scan_slot lb last0 j1) 1,
             int (scan_slot lb last0 j1)))
   \<or> (\<forall>j' < slots lb. counter lb (scan_slot lb last0 j') \<noteq> 0)
   \<or> (\<forall>j' < slots lb. counter lb (scan_slot lb last0 j') = SIZE_MAX)"
    by blast
  from d j z m have f: "counter lb (scan_slot lb last0 j1) = 0"
      "\<forall>j'<j1. counter lb (scan_slot lb last0 j') \<noteq> 0"
      "LoadBalancer_acquire lb last0 =
        Inr (int (scan_slot lb last0 j1), set_counter lb (scan_slot lb last0 j1) 1,
             int (scan_slot lb last0 j1))"
    by metis+
  have "j1 = j"
  proof (rule ccontr)
    assume "j1 \<noteq> j"
    then consider "j1 < j" | "j < j1" by linarith
    then show False using f(1,2) z nz by cases auto
  qed
  with f(3) show ?thesis by simp
qed

lemma acquire_incr:
  assumes wf: "LoadBalancer_wf lb" and li: "is_int last0"
  shows "\<exists>r l. r < slots lb \<and> is_int l \<and>
    LoadBalancer_acquire lb last0 = Inr (int r, set_counter lb r (counter lb r + 1), l)"
proof -
  have n: "0 < slots lb" using wf by (simp add: LoadBalancer_wf_def)
  from acquire_cases [OF wf li] is_int_last_after [OF wf, of last0]
  obtain j where j: "j < slots lb" and
    d: "(counter lb (scan_slot lb last0 j) = 0 \<and>
      LoadBalancer_acquire lb last0 =
        Inr (int (scan_slot lb last0 j), set_counter lb (scan_slot lb last0 j) 1,
             int (scan_slot lb last0 j)))
   \<or> (\<exists>l. is_int l \<and> LoadBalancer_acquire lb last0 =
        Inr (int (scan_slot lb last0 j),
             set_counter lb (scan_slot lb last0 j) (counter lb (scan_slot lb last0 j) + 1), l))
   \<or> (\<exists>l. is_int l \<and> LoadBalancer_acquire lb last0 =
        Inr (0, set_counter lb 0 (counter lb 0 + 1), l))"
    by blast
  let ?r = "scan_slot lb last0 j"
  have r: "?r < slots lb" using wf by (rule scan_slot_less)
  have ri: "is_int (int ?r)"
    using r wf by (simp add: is_int_def INT_MIN_def INT_MAX_def LoadBalancer_wf_def)
  from d show ?thesis
  proof (elim disjE)
    assume a: "counter lb ?r = 0 \<and>
      LoadBalancer_acquire lb last0 = Inr (int ?r, set_counter lb ?r 1, int ?r)"
    then have "LoadBalancer_acquire lb last0 =
      Inr (int ?r, set_counter lb ?r (counter lb ?r + 1), int ?r)" by simp
    with r ri show ?thesis by blast
  next
    assume "\<exists>l. is_int l \<and> LoadBalancer_acquire lb last0 =
        Inr (int ?r, set_counter lb ?r (counter lb ?r + 1), l)"
    with r show ?thesis by blast
  next
    assume "\<exists>l. is_int l \<and> LoadBalancer_acquire lb last0 =
        Inr (0, set_counter lb 0 (counter lb 0 + 1), l)"
    then obtain l where "is_int l" "LoadBalancer_acquire lb last0 =
        Inr (int 0, set_counter lb 0 (counter lb 0 + 1), l)" by auto
    with n show ?thesis by blast
  qed
qed

lemma free_at:
  assumes wf: "LoadBalancer_wf lb" and r: "r < slots lb"
  shows "LoadBalancer_free lb (int r) = Inr (set_counter lb r (counter lb r - 1))"
proof -
  have "times8 (int r) = Inr (8 * int r)"
    using wf r by (intro times8_at [of r "slots lb"]) (simp_all add: LoadBalancer_wf_def)
  then show ?thesis
    unfolding LoadBalancer_free_def
    by (simp add: fetch_sub_at [OF wf_index [OF wf r]] set_counter_def counter_def)
qed

lemma set_counter_twice: "set_counter (set_counter lb i v) i v' = set_counter lb i v'"
  by (simp add: set_counter_def)

lemma set_counter_same: "set_counter lb i (counter lb i) = lb"
  by (simp add: set_counter_def counter_def)

lemma acquire_then_free:
  assumes wf: "LoadBalancer_wf lb" and li: "is_int last0"
  shows "\<exists>r lb1 l1. LoadBalancer_acquire lb last0 = Inr (r, lb1, l1) \<and>
    LoadBalancer_free lb1 r = Inr lb"
proof -
  from acquire_incr [OF wf li] obtain r l where r: "r < slots lb" and
    a: "LoadBalancer_acquire lb last0 = Inr (int r, set_counter lb r (counter lb r + 1), l)"
    by blast
  let ?lb1 = "set_counter lb r (counter lb r + 1)"
  have "LoadBalancer_free ?lb1 (int r) = Inr (set_counter ?lb1 r (counter ?lb1 r - 1))"
    using wf r by (intro free_at) (simp_all add: wf_set_counter slots_set_counter)
  also have "counter ?lb1 r = counter lb r + 1"
    using counter_set_counter [OF wf_index [OF wf r]] by simp
  finally have "LoadBalancer_free ?lb1 (int r) = Inr lb"
    by (simp add: set_counter_twice set_counter_same)
  with a show ?thesis by blast
qed

section \<open>Successive calls on an idle pool\<close>

lemma mod_shift_inj:
  fixes n :: nat
  assumes "(s + j) mod n = (s + j') mod n" "j < n" "j' < n"
  shows "j = j'"
proof -
  have aux: False if lt: "a < b" "b < n" and eq: "(s + a) mod n = (s + b) mod n" for a b
  proof -
    have "s + a \<le> s + b" using lt by simp
    from mod_eq_dvd_iff_nat [OF this, of n] eq have "n dvd (s + b) - (s + a)"
      by simp
    moreover have "(s + b) - (s + a) = b - a" by simp
    ultimately have "n dvd b - a" by simp
    moreover have "0 < b - a" "b - a < n" using lt by simp_all
    ultimately show False by (simp add: nat_dvd_not_less)
  qed
  show ?thesis
  proof (rule ccontr)
    assume "j \<noteq> j'"
    then consider "j < j'" | "j' < j" by linarith
    then show False using aux [of j j'] aux [of j' j] assms by cases auto
  qed
qed

lemma scan_slot_inj:
  "scan_slot lb last0 j = scan_slot lb last0 j' \<Longrightarrow> j < slots lb \<Longrightarrow> j' < slots lb \<Longrightarrow> j = j'"
  unfolding scan_slot_def by (rule mod_shift_inj)

lemma start_of_slot:
  assumes "LoadBalancer_wf lb" "r < slots lb"
  shows "start (slots lb) (int r) = r"
proof -
  have "is_int (int r)"
    using assms by (simp add: is_int_def INT_MIN_def INT_MAX_def LoadBalancer_wf_def)
  moreover have "slots lb \<le> 268435456" using assms by (simp add: LoadBalancer_wf_def)
  ultimately show ?thesis using assms(2) by (simp add: start_conv)
qed

lemma scan_slot_after:
  assumes wf: "LoadBalancer_wf lb"
  shows "scan_slot (set_counter lb i v) (int (scan_slot lb last0 a)) j = scan_slot lb last0 (a + j)"
proof -
  have r: "scan_slot lb last0 a < slots lb" using wf by (rule scan_slot_less)
  have "scan_slot (set_counter lb i v) (int (scan_slot lb last0 a)) j =
      (scan_slot lb last0 a + j) mod slots lb"
    by (subst scan_slot_def) (simp only: slots_set_counter start_of_slot [OF wf r])
  also have "\<dots> = (start (slots lb) last0 + a + j) mod slots lb"
    by (simp add: scan_slot_def mod_add_left_eq)
  finally show ?thesis by (simp add: scan_slot_def add.assoc)
qed

lemma acquire_times_busy:
  assumes "LoadBalancer_wf lb" "is_int last0" "k \<le> m" "m < slots lb"
    and "counter lb (scan_slot lb last0 0) \<noteq> 0"
    and "\<forall>j. 1 \<le> j \<and> j \<le> m \<longrightarrow> counter lb (scan_slot lb last0 j) = 0"
  shows "\<exists>lb' l'. acquire_times k lb last0 =
    Inr (map (\<lambda>j. int (scan_slot lb last0 (Suc j))) [0..<k], lb', l')"
  using assms
proof (induction k arbitrary: lb last0 m)
  case 0
  then show ?case by simp
next
  case (Suc k)
  let ?sl = "scan_slot lb last0"
  let ?lb1 = "set_counter lb (?sl (Suc 0)) 1"
  have one: "Suc 0 < slots lb" "1 \<le> Suc 0" "Suc 0 \<le> m" using Suc.prems(3,4) by auto
  have z: "counter lb (?sl (Suc 0)) = 0" using Suc.prems(6) one by simp
  have nz: "\<forall>j'<Suc 0. counter lb (?sl j') \<noteq> 0" using Suc.prems(5) by simp
  have acq: "LoadBalancer_acquire lb last0 = Inr (int (?sl (Suc 0)), ?lb1, int (?sl (Suc 0)))"
    using acquire_fast [OF Suc.prems(1,2) one(1) z nz] .
  have r: "?sl (Suc 0) < slots lb" using Suc.prems(1) by (rule scan_slot_less)
  have wf1: "LoadBalancer_wf ?lb1" using Suc.prems(1) by (rule wf_set_counter)
  have li1: "is_int (int (?sl (Suc 0)))"
    using r Suc.prems(1) by (simp add: is_int_def INT_MIN_def INT_MAX_def LoadBalancer_wf_def)
  have sl1: "\<And>j. scan_slot ?lb1 (int (?sl (Suc 0))) j = ?sl (Suc j)"
    using scan_slot_after [OF Suc.prems(1), of "?sl (Suc 0)" 1 last0 "Suc 0"] by simp
  have c1: "\<And>i'. counter ?lb1 i' = (if i' = ?sl (Suc 0) then 1 else counter lb i')"
    using counter_set_counter [OF wf_index [OF Suc.prems(1) r]] by simp
  have busy1: "counter ?lb1 (scan_slot ?lb1 (int (?sl (Suc 0))) 0) \<noteq> 0"
    by (simp add: sl1 c1)
  have idle1: "\<forall>j. 1 \<le> j \<and> j \<le> m - 1 \<longrightarrow> counter ?lb1 (scan_slot ?lb1 (int (?sl (Suc 0))) j) = 0"
  proof (intro allI impI)
    fix j assume j: "1 \<le> j \<and> j \<le> m - 1"
    then have jn: "Suc j < slots lb" "1 \<le> Suc j" "Suc j \<le> m" using Suc.prems(4) by auto
    have "?sl (Suc j) \<noteq> ?sl (Suc 0)"
      using scan_slot_inj [of lb last0 "Suc j" "Suc 0"] jn(1) one(1) j by auto
    then show "counter ?lb1 (scan_slot ?lb1 (int (?sl (Suc 0))) j) = 0"
      using Suc.prems(6) jn by (simp add: sl1 c1)
  qed
  have km: "k \<le> m - 1" "m - 1 < slots ?lb1"
    using Suc.prems(3,4) by (simp_all add: slots_set_counter)
  from Suc.IH [OF wf1 li1 km busy1 idle1] obtain lb' l' where
    rest: "acquire_times k ?lb1 (int (?sl (Suc 0))) =
      Inr (map (\<lambda>j. int (?sl (Suc (Suc j)))) [0..<k], lb', l')"
    by (auto simp: sl1)
  have "map (\<lambda>j. int (?sl (Suc j))) [0..<Suc k] =
      int (?sl (Suc 0)) # map (\<lambda>j. int (?sl (Suc (Suc j)))) [0..<k]"
    using upt_conv_Cons [of 0 "Suc k"]
    by (simp only: zero_less_Suc list.map map_Suc_upt [symmetric] map_map comp_def)
  with acq rest show ?case by simp
qed

lemma acquire_times_idle:
  assumes wf: "LoadBalancer_wf lb" and li: "is_int last0"
    and idle: "\<forall>i < slots lb. counter lb i = 0" and k: "k \<le> slots lb"
  shows "\<exists>lb' l'. acquire_times k lb last0 =
    Inr (map (\<lambda>j. int (scan_slot lb last0 j)) [0..<k], lb', l')"
proof (cases k)
  case 0
  then show ?thesis by simp
next
  case (Suc k')
  let ?sl = "scan_slot lb last0"
  let ?lb1 = "set_counter lb (?sl 0) 1"
  have n: "0 < slots lb" using wf by (simp add: LoadBalancer_wf_def)
  have r: "?sl 0 < slots lb" using wf by (rule scan_slot_less)
  have z: "counter lb (?sl 0) = 0" using idle r by simp
  have acq: "LoadBalancer_acquire lb last0 = Inr (int (?sl 0), ?lb1, int (?sl 0))"
    using acquire_fast [OF wf li n z] by simp
  have wf1: "LoadBalancer_wf ?lb1" using wf by (rule wf_set_counter)
  have li1: "is_int (int (?sl 0))"
    using r wf by (simp add: is_int_def INT_MIN_def INT_MAX_def LoadBalancer_wf_def)
  have sl1: "\<And>j. scan_slot ?lb1 (int (?sl 0)) j = ?sl j"
    using scan_slot_after [OF wf, of "?sl 0" 1 last0 0] by simp
  have c1: "\<And>i'. counter ?lb1 i' = (if i' = ?sl 0 then 1 else counter lb i')"
    using counter_set_counter [OF wf_index [OF wf r]] by simp
  have busy1: "counter ?lb1 (scan_slot ?lb1 (int (?sl 0)) 0) \<noteq> 0"
    by (simp add: sl1 c1)
  have idle1: "\<forall>j. 1 \<le> j \<and> j \<le> slots lb - 1 \<longrightarrow>
      counter ?lb1 (scan_slot ?lb1 (int (?sl 0)) j) = 0"
  proof (intro allI impI)
    fix j assume j: "1 \<le> j \<and> j \<le> slots lb - 1"
    then have jn: "j < slots lb" using n by auto
    have "?sl j \<noteq> ?sl 0"
      using scan_slot_inj [of lb last0 j 0] jn n j by auto
    moreover have "?sl j < slots lb" using wf by (rule scan_slot_less)
    ultimately show "counter ?lb1 (scan_slot ?lb1 (int (?sl 0)) j) = 0"
      using idle by (simp add: sl1 c1)
  qed
  have km: "k' \<le> slots lb - 1" "slots lb - 1 < slots ?lb1"
    using k Suc n by (simp_all add: slots_set_counter)
  from acquire_times_busy [OF wf1 li1 km busy1 idle1] obtain lb' l' where
    rest: "acquire_times k' ?lb1 (int (?sl 0)) =
      Inr (map (\<lambda>j. int (?sl (Suc j))) [0..<k'], lb', l')"
    by (auto simp: sl1)
  have "map (\<lambda>j. int (?sl j)) [0..<Suc k'] =
      int (?sl 0) # map (\<lambda>j. int (?sl (Suc j))) [0..<k']"
    using upt_conv_Cons [of 0 "Suc k'"]
    by (simp only: zero_less_Suc list.map map_Suc_upt [symmetric] map_map comp_def)
  with acq rest Suc show ?thesis by simp
qed

lemma scan_slot_image:
  assumes wf: "LoadBalancer_wf lb"
  shows "scan_slot lb last0 ` {..< slots lb} = {..< slots lb}"
proof
  show "scan_slot lb last0 ` {..< slots lb} \<subseteq> {..< slots lb}"
    using scan_slot_less [OF wf] by blast
  show "{..< slots lb} \<subseteq> scan_slot lb last0 ` {..< slots lb}"
  proof
    fix i assume "i \<in> {..< slots lb}"
    then have "i < slots lb" by simp
    from scan_slot_onto [OF wf this, of last0] obtain j where
      "j < slots lb" "scan_slot lb last0 j = i" by blast
    then show "i \<in> scan_slot lb last0 ` {..< slots lb}" by (intro image_eqI [of _ _ j]) simp_all
  qed
qed

lemma scan_slot_inj_on:
  assumes "k \<le> slots lb"
  shows "inj_on (\<lambda>j. int (scan_slot lb last0 j)) (set [0..<k])"
proof (rule inj_onI)
  fix x y assume x: "x \<in> set [0..<k]" and y: "y \<in> set [0..<k]"
    and e: "int (scan_slot lb last0 x) = int (scan_slot lb last0 y)"
  from x y assms have b: "x < slots lb" "y < slots lb" by simp_all
  from e have "scan_slot lb last0 x = scan_slot lb last0 y" by simp
  then show "x = y" using b by (rule scan_slot_inj)
qed

section \<open>Sequences of \<^verbatim>\<open>acquire\<close> and \<^verbatim>\<open>free\<close>\<close>

lemma count_list_remove1:
  "i \<in> set xs \<Longrightarrow> count_list (remove1 i xs) x = count_list xs x - (if x = i then 1 else 0)"
  by (induction xs) auto

lemma count_list_le_length: "count_list xs x \<le> length xs"
  by (induction xs) auto

lemma count_list_pos: "x \<in> set xs \<Longrightarrow> 0 < count_list xs x"
  by (induction xs) auto

lemma counts_held_iff:
  "counts_held lb held \<longleftrightarrow>
     (\<forall>i < slots lb. unat (counter lb i) = count_list held (int i)) \<and>
     (\<forall>r \<in> set held. 0 \<le> r \<and> r < int (slots lb))"
  by (auto simp: counts_held_def list_all_iff)

lemma unat_incr:
  fixes c :: "64 word"
  assumes "unat c < 18446744073709551615"
  shows "unat (c + 1) = unat c + 1"
proof -
  have "unat c + unat (1 :: 64 word) < 2 ^ LENGTH(64)" using assms by simp
  then have "unat (c + 1) = unat c + unat (1 :: 64 word)"
    by (simp only: unat_add_lem [THEN iffD1])
  then show ?thesis by simp
qed

lemma unat_decr:
  fixes c :: "64 word"
  assumes "c \<noteq> 0"
  shows "unat (c - 1) = unat c - 1"
  using assms by (rule unat_minus_one)

lemma counts_held_acquire:
  assumes wf: "LoadBalancer_wf lb" and r: "r < slots lb" and ch: "counts_held lb held"
    and len: "length held < 18446744073709551615"
  shows "counts_held (set_counter lb r (counter lb r + 1)) (int r # held)"
proof -
  from ch have c: "\<forall>i < slots lb. unat (counter lb i) = count_list held (int i)"
    and h: "\<forall>x \<in> set held. 0 \<le> x \<and> x < int (slots lb)"
    by (simp_all add: counts_held_iff)
  have "unat (counter lb r) \<le> length held" using c r count_list_le_length [of held "int r"] by simp
  then have inc: "unat (counter lb r + 1) = unat (counter lb r) + 1"
    using len by (intro unat_incr) simp
  have cs: "\<And>i'. counter (set_counter lb r (counter lb r + 1)) i' =
      (if i' = r then counter lb r + 1 else counter lb i')"
    using counter_set_counter [OF wf_index [OF wf r]] by simp
  show ?thesis
    unfolding counts_held_iff slots_set_counter
    using c h r inc by (auto simp: cs)
qed

lemma counts_held_free:
  assumes wf: "LoadBalancer_wf lb" and ch: "counts_held lb held" and i: "i \<in> set held"
  shows "0 \<le> i \<and> nat i < slots lb \<and> counter lb (nat i) \<noteq> 0 \<and>
    counts_held (set_counter lb (nat i) (counter lb (nat i) - 1)) (remove1 i held)"
proof -
  from ch have c: "\<forall>j < slots lb. unat (counter lb j) = count_list held (int j)"
    and h: "\<forall>x \<in> set held. 0 \<le> x \<and> x < int (slots lb)"
    by (simp_all add: counts_held_iff)
  from h i have i0: "0 \<le> i" and r: "nat i < slots lb" by auto
  have ir: "int (nat i) = i" using i0 by simp
  have "0 < unat (counter lb (nat i))" using c r i count_list_pos [of i held] ir by simp
  then have nz: "counter lb (nat i) \<noteq> 0" by (auto simp: unat_gt_0)
  have dec: "unat (counter lb (nat i) - 1) = unat (counter lb (nat i)) - 1"
    using nz by (rule unat_decr)
  have cs: "\<And>i'. counter (set_counter lb (nat i) (counter lb (nat i) - 1)) i' =
      (if i' = nat i then counter lb (nat i) - 1 else counter lb i')"
    using counter_set_counter [OF wf_index [OF wf r]] by simp
  have h': "\<forall>x \<in> set (remove1 i held). 0 \<le> x \<and> x < int (slots lb)"
    using h set_remove1_subset [of i held] by blast
  have c': "\<forall>j < slots lb.
      unat (counter (set_counter lb (nat i) (counter lb (nat i) - 1)) j) =
      count_list (remove1 i held) (int j)"
  proof (intro allI impI)
    fix j assume j: "j < slots lb"
    show "unat (counter (set_counter lb (nat i) (counter lb (nat i) - 1)) j) =
      count_list (remove1 i held) (int j)"
    proof (cases "j = nat i")
      case True
      then show ?thesis using c r dec ir by (simp add: cs count_list_remove1 [OF i])
    next
      case False
      then have "int j \<noteq> i" using i0 by auto
      then show ?thesis using c j False by (simp add: cs count_list_remove1 [OF i])
    qed
  qed
  show ?thesis
    using i0 r nz c' h' by (simp add: counts_held_iff slots_set_counter)
qed

lemma run_calls_counts:
  assumes "LoadBalancer_wf lb" "is_int last0" "counts_held lb held"
    and "length held + length cs < 18446744073709551616"
    and "matched cs lb last0 held"
  shows "frees_positive cs lb last0 \<and>
    (\<exists>lb' last' held'. run_calls cs lb last0 held = Inr (lb', last', held') \<and>
      LoadBalancer_wf lb' \<and> slots lb' = slots lb \<and> is_int last' \<and> counts_held lb' held')"
  using assms
proof (induction cs arbitrary: lb last0 held)
  case Nil
  then show ?case by simp
next
  case (Cons c cs)
  show ?case
  proof (cases c)
    case Acquire
    from acquire_incr [OF Cons.prems(1,2)] obtain r l where r: "r < slots lb" and l: "is_int l"
      and a: "LoadBalancer_acquire lb last0 = Inr (int r, set_counter lb r (counter lb r + 1), l)"
      by blast
    let ?lb1 = "set_counter lb r (counter lb r + 1)"
    have wf1: "LoadBalancer_wf ?lb1" using Cons.prems(1) by (rule wf_set_counter)
    have len: "length held < 18446744073709551615" using Cons.prems(4) by simp
    have ch1: "counts_held ?lb1 (int r # held)"
      using counts_held_acquire [OF Cons.prems(1) r Cons.prems(3) len] .
    have len1: "length (int r # held) + length cs < 18446744073709551616"
      using Cons.prems(4) by simp
    have m1: "matched cs ?lb1 l (int r # held)"
      using Cons.prems(5) Acquire a by simp
    from Cons.IH [OF wf1 l ch1 len1 m1] show ?thesis
      using Acquire a by (simp add: slots_set_counter)
  next
    case (Free i)
    from Cons.prems(5) Free have i: "i \<in> set held" by simp
    from counts_held_free [OF Cons.prems(1,3) i] have i0: "0 \<le> i" and r: "nat i < slots lb"
      and nz: "counter lb (nat i) \<noteq> 0"
      and ch1: "counts_held (set_counter lb (nat i) (counter lb (nat i) - 1)) (remove1 i held)"
      by simp_all
    let ?lb1 = "set_counter lb (nat i) (counter lb (nat i) - 1)"
    have f: "LoadBalancer_free lb i = Inr ?lb1"
      using free_at [OF Cons.prems(1) r] i0 by simp
    have wf1: "LoadBalancer_wf ?lb1" using Cons.prems(1) by (rule wf_set_counter)
    have "length (remove1 i held) \<le> length held" by (simp add: length_remove1)
    then have len1: "length (remove1 i held) + length cs < 18446744073709551616"
      using Cons.prems(4) by simp
    have m1: "matched cs ?lb1 last0 (remove1 i held)"
      using Cons.prems(5) Free f by simp
    from Cons.IH [OF wf1 Cons.prems(2) ch1 len1 m1] show ?thesis
      using Free f i0 nz by (simp add: slots_set_counter)
  qed
qed

section \<open>Sessions, unloading and materialization\<close>

lemma Interpreter_acquire_session_Inr:
  "Interpreter_acquire_session w ip = Inr I \<Longrightarrow>
     impl I = ip \<and> notify_idx I = - 1 \<and> self I = None \<and>
     (\<exists>X. interpreters w ip = Some X \<and> ses_manager I = interp_manager X)"
  by (auto simp: Interpreter_acquire_session_def split: option.splits)

lemma dtor_untagged:
  "notify_idx I < 0 \<Longrightarrow> InterpreterSession_dtor w I = Inr w"
  by (simp add: InterpreterSession_dtor_def)

lemma dtor_bound_session:
  "Interpreter_acquire_session w ip = Inr I \<Longrightarrow> InterpreterSession_dtor w1 I = Inr w1"
  by (drule Interpreter_acquire_session_Inr) (simp add: dtor_untagged)

lemma unload_here_live:
  assumes "interpreters w ip = Some X"
  shows "unload_here w obj ip =
    Inr (w\<lparr>interpreters := (interpreters w)(ip \<mapsto> X\<lparr>pImpl := (pImpl X)(object_id obj := None)\<rparr>)\<rparr>)"
  using assms
  by (simp add: unload_here_def Interpreter_acquire_session_def impl_unload_def
      InterpreterSession_dtor_def)

lemma unload_here_Inr:
  "unload_here w obj ip = Inr w' \<Longrightarrow>
     \<exists>X. interpreters w ip = Some X \<and>
       w' = w\<lparr>interpreters := (interpreters w)(ip \<mapsto> X\<lparr>pImpl := (pImpl X)(object_id obj := None)\<rparr>)\<rparr>"
proof (cases "interpreters w ip")
  case None
  assume "unload_here w obj ip = Inr w'"
  with None show ?thesis
    by (simp add: unload_here_def Interpreter_acquire_session_def)
next
  case (Some X)
  assume "unload_here w obj ip = Inr w'"
  with unload_here_live [OF Some, of obj] Some show ?thesis by simp
qed

lemma unload_here_frame:
  "unload_here w obj ip = Inr w' \<Longrightarrow> managers w' = managers w \<and> tls_last w' = tls_last w"
  by (drule unload_here_Inr) auto

lemma unload_each_frame:
  "unload_each w obj ips = Inr w' \<Longrightarrow> managers w' = managers w \<and> tls_last w' = tls_last w"
proof (induction ips arbitrary: w)
  case Nil
  then show ?case by simp
next
  case (Cons ip ips)
  from Cons.prems obtain w1 where h: "unload_here w obj ip = Inr w1"
    and r: "unload_each w1 obj ips = Inr w'"
    by (auto split: sum.splits)
  from unload_here_frame [OF h] Cons.IH [OF r] show ?case by simp
qed

lemma drop_id_twice: "drop_id oid (drop_id oid X) = drop_id oid X"
  by (simp add: drop_id_def)

lemma unload_each_live:
  assumes "\<forall>ip \<in> set ips. interpreters w ip \<noteq> None"
  shows "unload_each w obj ips =
    Inr (w\<lparr>interpreters := (\<lambda>a. if a \<in> set ips
                                  then map_option (drop_id (object_id obj)) (interpreters w a)
                                  else interpreters w a)\<rparr>)"
  using assms
proof (induction ips arbitrary: w)
  case Nil
  then show ?case by simp
next
  case (Cons ip ips)
  from Cons.prems obtain X where X: "interpreters w ip = Some X" by auto
  let ?w1 = "w\<lparr>interpreters := (interpreters w)(ip \<mapsto> drop_id (object_id obj) X)\<rparr>"
  have h: "unload_here w obj ip = Inr ?w1"
    using unload_here_live [OF X, of obj] by (simp add: drop_id_def)
  have live1: "\<forall>a \<in> set ips. interpreters ?w1 a \<noteq> None" using Cons.prems by simp
  have "(\<lambda>a. if a \<in> set ips
              then map_option (drop_id (object_id obj)) (interpreters ?w1 a)
              else interpreters ?w1 a) =
        (\<lambda>a. if a \<in> set (ip # ips)
              then map_option (drop_id (object_id obj)) (interpreters w a)
              else interpreters w a)"
    using X by (auto simp: fun_eq_iff drop_id_twice)
  with Cons.IH [OF live1] h show ?case by simp
qed

lemma from_movable_materialized:
  assumes "InterpreterSession_from_movable unpickle w I obj = Inr (v, w')"
  shows "\<exists>X'. interpreters w' (impl I) = Some X' \<and> pImpl X' (object_id obj) = Some v"
  using assms
  by (auto simp: InterpreterSession_from_movable_def unpickle_or_get_def
      split: option.splits sum.splits)

lemma free_changes:
  assumes "LoadBalancer_free lb i = Inr lb'"
  shows "lb' \<noteq> lb"
proof -
  from assms obtain p where p: "times8 i = Inr p"
    and a: "atomic_fetch_sub (uses lb) p 1 = Inr (uses lb')"
    by (auto simp: LoadBalancer_free_def split: sum.splits)
  from a have b: "0 \<le> p" "nat p < length (uses lb)"
    and u: "uses lb' = (uses lb)[nat p := uses lb ! nat p - 1]"
    by (auto simp: atomic_fetch_sub_def split: if_splits)
  from u b have "uses lb' ! nat p = uses lb ! nat p - 1" by simp
  moreover have "uses lb ! nat p - 1 \<noteq> uses lb ! nat p" by simp
  ultimately show ?thesis by auto
qed

lemma dtor_cases:
  assumes "InterpreterSession_dtor w I = Inr w'"
  shows "if ses_manager I \<noteq> None \<and> 0 \<le> notify_idx I
         then \<exists>m M lb. ses_manager I = Some m \<and> managers w m = Some M \<and>
                LoadBalancer_free (resources M) (notify_idx I) = Inr lb \<and>
                w' = w\<lparr>managers := (managers w)(m \<mapsto> M\<lparr>resources := lb\<rparr>)\<rparr>
         else w' = w"
  using assms
  by (auto simp: InterpreterSession_dtor_def split: option.splits sum.splits if_splits)

lemma dtor_touches_iff:
  assumes "InterpreterSession_dtor w I = Inr w'"
  shows "managers w' \<noteq> managers w \<longleftrightarrow> ses_manager I \<noteq> None \<and> 0 \<le> notify_idx I"
proof (cases "ses_manager I \<noteq> None \<and> 0 \<le> notify_idx I")
  case True
  with dtor_cases [OF assms] obtain m M lb where m: "managers w m = Some M"
    and f: "LoadBalancer_free (resources M) (notify_idx I) = Inr lb"
    and w': "w' = w\<lparr>managers := (managers w)(m \<mapsto> M\<lparr>resources := lb\<rparr>)\<rparr>"
    by auto
  from free_changes [OF f] have "M\<lparr>resources := lb\<rparr> \<noteq> M"
    by (metis InterpreterManager.select_convs(3) InterpreterManager.surjective
        InterpreterManager.update_convs(3))
  then have "managers w' m \<noteq> managers w m" using m w' by simp
  then have "managers w' \<noteq> managers w" by metis
  with True show ?thesis by simp
next
  case False
  with dtor_cases [OF assms] show ?thesis by auto
qed

lemma acquire_one_Inr:
  assumes "acquire_one w m = Inr (I, w1)"
  shows "\<exists>M r lb last'. managers w m = Some M \<and>
    LoadBalancer_acquire (resources M) (tls_last w) = Inr (r, lb, last') \<and>
    0 \<le> r \<and> r < int (length (instances M)) \<and>
    w1 = w\<lparr>managers := (managers w)(m \<mapsto> M\<lparr>resources := lb\<rparr>), tls_last := last'\<rparr> \<and>
    notify_idx I = r \<and> impl I = instances M ! nat r \<and> self I = None \<and>
    (\<exists>X. interpreters w (instances M ! nat r) = Some X \<and> ses_manager I = interp_manager X)"
proof -
  from assms obtain M where M: "managers w m = Some M"
    by (auto simp: acquire_one_def split: option.splits)
  from assms M obtain r lb last' where
    a: "LoadBalancer_acquire (resources M) (tls_last w) = Inr (r, lb, last')"
    by (auto simp: acquire_one_def split: sum.splits)
  let ?w' = "w\<lparr>managers := (managers w)(m \<mapsto> M\<lparr>resources := lb\<rparr>), tls_last := last'\<rparr>"
  from assms M a have rng: "0 \<le> r" "r < int (length (instances M))"
    by (auto simp: acquire_one_def Let_def split: if_splits)
  from assms M a rng obtain I0 where
    s: "Interpreter_acquire_session ?w' (instances M ! nat r) = Inr I0"
    and I: "I = I0\<lparr>notify_idx := r\<rparr>" and w1: "w1 = ?w'"
    by (auto simp: acquire_one_def Let_def split: sum.splits)
  from Interpreter_acquire_session_Inr [OF s] I
  have "notify_idx I = r" "impl I = instances M ! nat r" "self I = None"
    "\<exists>X. interpreters w (instances M ! nat r) = Some X \<and> ses_manager I = interp_manager X"
    by auto
  with M a rng w1 show ?thesis by blast
qed

lemma acquire_one_then_dtor:
  assumes wf: "manager_wf w m" and li: "is_int (tls_last w)"
    and a: "acquire_one w m = Inr (I, w1)"
  shows "ses_manager I = Some m \<and> 0 \<le> notify_idx I \<and>
    (\<exists>w2. InterpreterSession_dtor w1 I = Inr w2 \<and> managers w2 = managers w)"
proof -
  from acquire_one_Inr [OF a] obtain M r lb last' X where M: "managers w m = Some M"
    and acq: "LoadBalancer_acquire (resources M) (tls_last w) = Inr (r, lb, last')"
    and rng: "0 \<le> r" "r < int (length (instances M))"
    and w1: "w1 = w\<lparr>managers := (managers w)(m \<mapsto> M\<lparr>resources := lb\<rparr>), tls_last := last'\<rparr>"
    and idx: "notify_idx I = r"
    and X: "interpreters w (instances M ! nat r) = Some X" "ses_manager I = interp_manager X"
    by blast
  from wf M have lwf: "LoadBalancer_wf (resources M)"
    and live: "list_all (\<lambda>ip. case interpreters w ip of None \<Rightarrow> False
                 | Some X \<Rightarrow> interp_manager X = Some m) (instances M)"
    by (simp_all add: manager_wf_def)
  have "instances M ! nat r \<in> set (instances M)" using rng by simp
  with live X have sm: "ses_manager I = Some m" by (auto simp: list_all_iff)
  from acquire_then_free [OF lwf li] acq have f: "LoadBalancer_free lb r = Inr (resources M)"
    by auto
  have "InterpreterSession_dtor w1 I = Inr (w1\<lparr>managers := (managers w1)(m \<mapsto> M)\<rparr>)"
    using sm idx rng f w1 by (simp add: InterpreterSession_dtor_def)
  moreover have "managers (w1\<lparr>managers := (managers w1)(m \<mapsto> M)\<rparr>) = managers w"
    using w1 M by (auto simp: fun_eq_iff)
  ultimately show ?thesis using sm idx rng by auto
qed

lemma acquire_session_Inr:
  assumes "ReplicatedObj_acquire_session unpickle w obj on_this_interpreter = Inr (I', w')"
  shows "\<exists>I w1 v.
     (case on_this_interpreter of
        Some ip \<Rightarrow> Interpreter_acquire_session w ip = Inr I \<and> w1 = w
      | None \<Rightarrow> acquire_one w (obj_manager obj) = Inr (I, w1)) \<and>
     InterpreterSession_from_movable unpickle w1 I obj = Inr (v, w') \<and>
     I' = I\<lparr>self := Some v\<rparr>"
  using assms
  by (cases on_this_interpreter)
     (auto simp: ReplicatedObj_acquire_session_def split: sum.splits)

section \<open>Object ids of successive creations\<close>

lemma create_all_ids:
  assumes "managers w m = Some M"
    and "\<forall>(I, v) \<in> set rs. ses_manager I = Some m \<and> (\<exists>p. pickle (self I) v = Inr p)"
    and "unat (next_object_id M) + length rs \<le> 18446744073709551616"
  shows "\<exists>objs w'. create_all pickle w rs = Inr (objs, w') \<and>
    map (\<lambda>obj. unat (object_id obj)) objs =
      [unat (next_object_id M) ..< unat (next_object_id M) + length rs]"
  using assms
proof (induction rs arbitrary: w M)
  case Nil
  then show ?case by simp
next
  case (Cons r rs)
  obtain I v where r: "r = (I, v)" by (cases r)
  from Cons.prems(2) r obtain p where I: "ses_manager I = Some m" and p: "pickle (self I) v = Inr p"
    by auto
  let ?c = "next_object_id M"
  let ?M1 = "M\<lparr>next_object_id := ?c + 1\<rparr>"
  let ?w1 = "w\<lparr>managers := (managers w)(m \<mapsto> ?M1)\<rparr>"
  let ?obj = "\<lparr>object_id = ?c, data = p, obj_manager = m\<rparr>"
  have cm: "InterpreterSession_create_movable pickle w I v = Inr (?obj, ?w1)"
    using I p Cons.prems(1) by (simp add: InterpreterSession_create_movable_def)
  have m1: "managers ?w1 m = Some ?M1" by simp
  have rest: "\<forall>(I, v) \<in> set rs. ses_manager I = Some m \<and> (\<exists>p. pickle (self I) v = Inr p)"
    using Cons.prems(2) by simp
  show ?case
  proof (cases rs)
    case Nil
    with cm r show ?thesis by simp
  next
    case (Cons r' rs')
    then have "unat ?c + 1 < 18446744073709551616" using Cons.prems(3) by simp
    then have inc: "unat (?c + 1) = unat ?c + 1"
      by (intro unat_incr) simp
    then have b: "unat (next_object_id ?M1) + length rs \<le> 18446744073709551616"
      using Cons.prems(3) by simp
    from Cons.IH [OF m1 rest b] obtain objs w' where
      ca: "create_all pickle ?w1 rs = Inr (objs, w')"
      and ids: "map (\<lambda>obj. unat (object_id obj)) objs =
        [unat (?c + 1) ..< unat (?c + 1) + length rs]"
      by auto
    have "[unat ?c ..< unat ?c + length (r # rs)] =
        unat ?c # [unat (?c + 1) ..< unat (?c + 1) + length rs]"
      using upt_conv_Cons [of "unat ?c" "unat ?c + length (r # rs)"] inc by simp
    with cm ca ids r show ?thesis by simp
  qed
qed

lemma upt_unat_distinct:
  fixes xs :: "64 word list"
  assumes "map unat xs = [a ..< b]"
  shows "distinct xs \<and> sorted_wrt (<) xs"
proof -
  have d: "distinct (map unat xs)" and s: "sorted_wrt (<) (map unat xs)"
    unfolding assms by (simp_all add: sorted_wrt_upt)
  from d have "distinct xs" by (simp add: distinct_map)
  moreover from s have "sorted_wrt (\<lambda>x y. unat x < unat y) xs"
    by (simp add: sorted_wrt_map)
  then have "sorted_wrt (<) xs"
    by (rule sorted_wrt_mono_rel [rotated]) (simp add: word_less_nat_alt)
  ultimately show ?thesis by simp
qed

section \<open>Pointer differences\<close>

lemma sint_diff_near:
  fixes s e :: "64 word"
  assumes "\<bar>uint e - uint s\<bar> < 9223372036854775808"
  shows "sint (e - s) = uint e - uint s"
proof -
  have "sint (e - s) = signed_take_bit (LENGTH(64) - 1) (uint e - uint s)"
    by (simp only: word_sub_wi sint_sbintrunc')
  also have "\<dots> = uint e - uint s"
    using assms by (intro signed_take_bit_int_eq_self) simp_all
  finally show ?thesis .
qed

section \<open>Facts about the example states\<close>

lemma idle_pool4_wf: "LoadBalancer_wf (idle_pool 4)"
  by (simp add: LoadBalancer_wf_def idle_pool_def)

lemma idle_pool4_idle: "\<forall>i < slots (idle_pool 4). counter (idle_pool 4) i = 0"
  by (simp add: idle_pool_def counter_def)

lemma is_int_3: "is_int 3"
  by (simp add: is_int_def INT_MIN_def INT_MAX_def)

lemma pool3_wf: "LoadBalancer_wf pool3"
  by (simp add: LoadBalancer_wf_def pool3_def)

lemma pool3_counters: "counter pool3 0 = 2" "counter pool3 1 = 1" "counter pool3 2 = 1"
  by (simp_all add: counter_def pool3_def)

lemma is_int_small: "is_int 0" "is_int 1" "is_int 2" "is_int 3"
  by (simp_all add: is_int_def INT_MIN_def INT_MAX_def)

lemma idle_pool2_wf: "LoadBalancer_wf (idle_pool 2)"
  by (simp add: LoadBalancer_wf_def idle_pool_def)

lemma idle_pool2_acquire:
  "LoadBalancer_acquire (idle_pool 2) 0 = Inr (0, set_counter (idle_pool 2) 0 1, 0)"
  by code_simp

lemma idle_pool2_free:
  "LoadBalancer_free (set_counter (idle_pool 2) 0 1) 0 = Inr (idle_pool 2)"
  by code_simp

lemma world2_wf: "manager_wf world2 7"
  by (simp add: manager_wf_def world2_def manager7_def idle_pool2_wf) (simp add: idle_pool_def)

lemma world2_last: "is_int (tls_last world2)"
  by (simp add: world2_def is_int_def INT_MIN_def INT_MAX_def)

lemma world2_acquire_one: "acquire_one world2 7 = Inr (session_lb, world2_busy)"
  by (simp add: acquire_one_def world2_def manager7_def idle_pool2_acquire
      Interpreter_acquire_session_def session_lb_def world2_busy_def)

lemma world2_busy_dtor: "InterpreterSession_dtor world2_busy session_lb = Inr world2"
  by (simp add: InterpreterSession_dtor_def world2_busy_def session_lb_def manager7_def
      idle_pool2_free world2_def)

lemma world2_session11: "Interpreter_acquire_session world2 11 = Inr session_on11"
  by (simp add: Interpreter_acquire_session_def world2_def session_on11_def)

lemma world2_manager: "managers world2 (obj_manager obj3) = Some manager7"
  by (simp add: world2_def obj3_def)

lemma world2_live: "\<forall>ip \<in> set (instances manager7). interpreters world2 ip \<noteq> None"
  by (simp add: world2_def manager7_def)

lemma world2_unload_all: "ReplicatedObjImpl_unload world2 obj3 None = Inr world2_unloaded"
  using unload_each_live [OF world2_live, of obj3] world2_manager
  by (simp add: ReplicatedObjImpl_unload_def world2_unloaded_def)

lemma world2_unload_10: "ReplicatedObjImpl_unload world2 obj3 (Some 10) = Inr world2_unloaded10"
  by (simp add: ReplicatedObjImpl_unload_def unload_here_def Interpreter_acquire_session_def
      impl_unload_def InterpreterSession_dtor_def world2_def obj3_def world2_unloaded10_def)

lemma world2_from_movable_10:
  "InterpreterSession_from_movable (\<lambda>p. Inr (p + 1)) world2_busy session_lb obj3 =
     Inr (30, world2_used)"
  by (simp add: InterpreterSession_from_movable_def unpickle_or_get_def world2_busy_def
      world2_def session_lb_def obj3_def world2_used_def)

lemma world2_from_movable_11:
  "InterpreterSession_from_movable (\<lambda>p. Inr (p + 1)) world2 session_on11 obj3 =
     Inr (31, world2_on11)"
  by (simp add: InterpreterSession_from_movable_def unpickle_or_get_def
      world2_def session_on11_def obj3_def world2_on11_def)

lemma full_pool2_wf: "LoadBalancer_wf full_pool2"
  by (simp add: LoadBalancer_wf_def full_pool2_def)

lemma full_pool2_sat: "\<forall>i < slots full_pool2. counter full_pool2 i = SIZE_MAX"
proof (intro allI impI)
  fix i assume "i < slots full_pool2"
  then have "i = 0 \<or> i = 1" by (auto simp: full_pool2_def)
  then show "counter full_pool2 i = SIZE_MAX"
    by (auto simp: counter_def full_pool2_def SIZE_MAX_def)
qed

section \<open>Claims about the LoadBalancer\<close>

text \<open>
  C1, as the code has it. \<^verbatim>\<open>LoadBalancer::acquire\<close> scans all \<open>n\<close> slots from the
  thread-local offset, wrapping around (every slot is the slot of one of the \<open>n\<close>
  iterations). When some counter is 0, it returns the first slot of the scan whose
  counter is 0; that counter is 1 afterwards (the compare-and-swap from 0 to 1), and the
  call returns there, with \<^verbatim>\<open>last\<close> at the returned slot. When no counter is 0, the
  scan runs to its end, which leaves \<^verbatim>\<open>last\<close> one past the slot of the last
  iteration. Then, if some counter is below \<^verbatim>\<open>SIZE_MAX\<close>, the call returns the slot of
  the scan with the smallest counter, the first such in scan order, and that counter is
  one higher afterwards. If every counter is \<^verbatim>\<open>SIZE_MAX\<close>, no value is below the
  initial \<^verbatim>\<open>minusers\<close>, \<^verbatim>\<open>min_idx\<close> keeps its initial 0, and the call returns slot
  0, whose counter wraps around to 0.
\<close>

theorem acquire_scan:
  assumes "LoadBalancer_wf lb" and "is_int last0"
  shows "(\<forall>i < slots lb. \<exists>j < slots lb. scan_slot lb last0 j = i) \<and>
    (if \<exists>i < slots lb. counter lb i = 0
     then \<exists>j < slots lb.
            counter lb (scan_slot lb last0 j) = 0 \<and>
            (\<forall>j'<j. counter lb (scan_slot lb last0 j') \<noteq> 0) \<and>
            LoadBalancer_acquire lb last0 =
              Inr (int (scan_slot lb last0 j), set_counter lb (scan_slot lb last0 j) 1,
                   int (scan_slot lb last0 j))
     else if \<exists>i < slots lb. counter lb i \<noteq> SIZE_MAX
     then \<exists>j < slots lb.
            (\<forall>j' < slots lb. counter lb (scan_slot lb last0 j) \<le> counter lb (scan_slot lb last0 j')) \<and>
            (\<forall>j'<j. counter lb (scan_slot lb last0 j) < counter lb (scan_slot lb last0 j')) \<and>
            LoadBalancer_acquire lb last0 =
              Inr (int (scan_slot lb last0 j),
                   set_counter lb (scan_slot lb last0 j) (counter lb (scan_slot lb last0 j) + 1),
                   int (scan_slot lb last0 (slots lb - 1)) + 1)
     else LoadBalancer_acquire lb last0 =
            Inr (0, set_counter lb 0 0, int (scan_slot lb last0 (slots lb - 1)) + 1))"
proof (intro conjI)
  show "\<forall>i < slots lb. \<exists>j < slots lb. scan_slot lb last0 j = i"
    using scan_slot_onto [OF assms(1)] by blast
next
  let ?n = "slots lb"
  let ?c = "counter lb"
  let ?sl = "scan_slot lb last0"
  let ?l = "int (?sl (?n - 1)) + 1"
  have n: "0 < ?n" using assms(1) by (simp add: LoadBalancer_wf_def)
  have la: "last_after ?n ?n last0 = ?l" using n by (rule last_after_scan_slot)
  have less: "\<And>j. ?sl j < ?n" using assms(1) by (rule scan_slot_less)
  have onto: "\<And>i. i < ?n \<Longrightarrow> \<exists>j < ?n. ?sl j = i"
    using scan_slot_onto [OF assms(1)] by blast
  have m: "SIZE_MAX \<noteq> (0 :: 64 word)" by (simp add: SIZE_MAX_def)
  have w: "SIZE_MAX + 1 = (0 :: 64 word)" by (simp add: SIZE_MAX_def)
  from acquire_cases [OF assms] obtain j where j: "j < ?n" and
    d: "(?c (?sl j) = 0 \<and> (\<forall>j'<j. ?c (?sl j') \<noteq> 0) \<and>
          LoadBalancer_acquire lb last0 = Inr (int (?sl j), set_counter lb (?sl j) 1, int (?sl j)))
      \<or> (?c (?sl j) \<noteq> SIZE_MAX \<and> (\<forall>j' < ?n. ?c (?sl j') \<noteq> 0) \<and>
          (\<forall>j' < ?n. ?c (?sl j) \<le> ?c (?sl j')) \<and> (\<forall>j'<j. ?c (?sl j) < ?c (?sl j')) \<and>
          LoadBalancer_acquire lb last0 =
            Inr (int (?sl j), set_counter lb (?sl j) (?c (?sl j) + 1), ?l))
      \<or> ((\<forall>j' < ?n. ?c (?sl j') = SIZE_MAX) \<and>
          LoadBalancer_acquire lb last0 = Inr (0, set_counter lb 0 (?c 0 + 1), ?l))"
    unfolding la by blast
  from d show "if \<exists>i < ?n. ?c i = 0
     then \<exists>j < ?n. ?c (?sl j) = 0 \<and> (\<forall>j'<j. ?c (?sl j') \<noteq> 0) \<and>
            LoadBalancer_acquire lb last0 = Inr (int (?sl j), set_counter lb (?sl j) 1, int (?sl j))
     else if \<exists>i < ?n. ?c i \<noteq> SIZE_MAX
     then \<exists>j < ?n. (\<forall>j' < ?n. ?c (?sl j) \<le> ?c (?sl j')) \<and>
            (\<forall>j'<j. ?c (?sl j) < ?c (?sl j')) \<and>
            LoadBalancer_acquire lb last0 =
              Inr (int (?sl j), set_counter lb (?sl j) (?c (?sl j) + 1), ?l)
     else LoadBalancer_acquire lb last0 = Inr (0, set_counter lb 0 0, ?l)"
  proof (elim disjE)
    assume a: "?c (?sl j) = 0 \<and> (\<forall>j'<j. ?c (?sl j') \<noteq> 0) \<and>
          LoadBalancer_acquire lb last0 = Inr (int (?sl j), set_counter lb (?sl j) 1, int (?sl j))"
    then have "\<exists>i < ?n. ?c i = 0" using less [of j] by blast
    moreover have "\<exists>j < ?n. ?c (?sl j) = 0 \<and> (\<forall>j'<j. ?c (?sl j') \<noteq> 0) \<and>
            LoadBalancer_acquire lb last0 = Inr (int (?sl j), set_counter lb (?sl j) 1, int (?sl j))"
      using a j by blast
    ultimately show ?thesis by (simp only: if_True)
  next
    assume a: "?c (?sl j) \<noteq> SIZE_MAX \<and> (\<forall>j' < ?n. ?c (?sl j') \<noteq> 0) \<and>
          (\<forall>j' < ?n. ?c (?sl j) \<le> ?c (?sl j')) \<and> (\<forall>j'<j. ?c (?sl j) < ?c (?sl j')) \<and>
          LoadBalancer_acquire lb last0 =
            Inr (int (?sl j), set_counter lb (?sl j) (?c (?sl j) + 1), ?l)"
    have nz: "\<not> (\<exists>i < ?n. ?c i = 0)"
    proof
      assume "\<exists>i < ?n. ?c i = 0"
      then obtain i where "i < ?n" "?c i = 0" by blast
      with onto [of i] a show False by metis
    qed
    have ns: "\<exists>i < ?n. ?c i \<noteq> SIZE_MAX" using a less [of j] by blast
    have "\<exists>j < ?n. (\<forall>j' < ?n. ?c (?sl j) \<le> ?c (?sl j')) \<and>
            (\<forall>j'<j. ?c (?sl j) < ?c (?sl j')) \<and>
            LoadBalancer_acquire lb last0 =
              Inr (int (?sl j), set_counter lb (?sl j) (?c (?sl j) + 1), ?l)"
      using a j by blast
    then show ?thesis using nz ns by (simp only: if_True if_False)
  next
    assume a: "(\<forall>j' < ?n. ?c (?sl j') = SIZE_MAX) \<and>
          LoadBalancer_acquire lb last0 = Inr (0, set_counter lb 0 (?c 0 + 1), ?l)"
    have all: "\<forall>i < ?n. ?c i = SIZE_MAX"
    proof (intro allI impI)
      fix i assume "i < ?n"
      with onto [of i] a show "?c i = SIZE_MAX" by metis
    qed
    have nz: "\<not> (\<exists>i < ?n. ?c i = 0)" using all m by auto
    have ns: "\<not> (\<exists>i < ?n. ?c i \<noteq> SIZE_MAX)" using all by auto
    have "?c 0 + 1 = 0" using all n w by simp
    with a have "LoadBalancer_acquire lb last0 = Inr (0, set_counter lb 0 0, ?l)" by simp
    then show ?thesis using nz ns by (simp only: if_False)
  qed
qed

theorem acquire_scan_witness:
  "LoadBalancer_wf pool3 \<and> is_int 1 \<and>
   (if \<exists>i < slots pool3. counter pool3 i = 0
     then \<exists>j < slots pool3.
            counter pool3 (scan_slot pool3 1 j) = 0 \<and>
            (\<forall>j'<j. counter pool3 (scan_slot pool3 1 j') \<noteq> 0) \<and>
            LoadBalancer_acquire pool3 1 =
              Inr (int (scan_slot pool3 1 j), set_counter pool3 (scan_slot pool3 1 j) 1,
                   int (scan_slot pool3 1 j))
     else if \<exists>i < slots pool3. counter pool3 i \<noteq> SIZE_MAX
     then \<exists>j < slots pool3.
            (\<forall>j' < slots pool3. counter pool3 (scan_slot pool3 1 j) \<le> counter pool3 (scan_slot pool3 1 j')) \<and>
            (\<forall>j'<j. counter pool3 (scan_slot pool3 1 j) < counter pool3 (scan_slot pool3 1 j')) \<and>
            LoadBalancer_acquire pool3 1 =
              Inr (int (scan_slot pool3 1 j),
                   set_counter pool3 (scan_slot pool3 1 j) (counter pool3 (scan_slot pool3 1 j) + 1),
                   int (scan_slot pool3 1 (slots pool3 - 1)) + 1)
     else LoadBalancer_acquire pool3 1 =
            Inr (0, set_counter pool3 0 0, int (scan_slot pool3 1 (slots pool3 - 1)) + 1))"
proof -
  note t = acquire_scan [OF pool3_wf is_int_small(2)]
  show ?thesis by (intro conjI pool3_wf is_int_small(2) t [THEN conjunct2])
qed

text \<open>
  C1 as stated fails when every counter is \<^verbatim>\<open>SIZE_MAX\<close>. A pool of two reaches that
  state from idle by two acquisitions and four calls of \<^verbatim>\<open>free\<close>, with the
  thread-local \<^verbatim>\<open>last\<close> at 1. The scan of the next call starts at slot 1, both
  counters are equal and not 0, so slot 1 is the first-seen minimum; the call returns
  slot 0.
\<close>

theorem acquire_scan_counterexample:
  "run_calls [Acquire, Acquire, Free 0, Free 0, Free 1, Free 1] (idle_pool 2) 0 [] =
     Inr (full_pool2, 1, []) \<and>
   LoadBalancer_wf full_pool2 \<and> is_int 1 \<and>
   scan_slot full_pool2 1 0 = 1 \<and>
   counter full_pool2 1 = counter full_pool2 0 \<and>
   counter full_pool2 1 \<noteq> 0 \<and>
   LoadBalancer_acquire full_pool2 1 = Inr (0, set_counter full_pool2 0 0, 1)"
proof (intro conjI)
  show "run_calls [Acquire, Acquire, Free 0, Free 0, Free 1, Free 1] (idle_pool 2) 0 [] =
     Inr (full_pool2, 1, [])"
    by code_simp
  show "LoadBalancer_wf full_pool2" by (rule full_pool2_wf)
  show "is_int 1" by (rule is_int_small(2))
  show "scan_slot full_pool2 1 0 = 1" by code_simp
  show "counter full_pool2 1 = counter full_pool2 0" by (simp add: counter_def full_pool2_def)
  show "counter full_pool2 1 \<noteq> 0" by (simp add: counter_def full_pool2_def)
  show "LoadBalancer_acquire full_pool2 1 = Inr (0, set_counter full_pool2 0 0, 1)"
    by code_simp
qed

text \<open>
  C2, as the code has it. A \<^verbatim>\<open>free\<close> of the slot that \<^verbatim>\<open>acquire\<close> returned undoes
  the acquisition: the balancer is as it was before. In a sequence of calls in which
  every \<^verbatim>\<open>free\<close> frees a slot that is held when it is called, starting from counters
  that count the held slots (a new balancer holds none), every \<^verbatim>\<open>free\<close> finds a
  counter above 0, and at the end each counter is again the number of times its slot is
  held: no counter wraps around below 0. The sequence is shorter than \<open>2 ^ 64\<close> calls.
\<close>

theorem free_undoes_acquire:
  assumes "LoadBalancer_wf lb" and "is_int last0" and "counts_held lb held"
    and "length held + length cs < 18446744073709551616"
    and "matched cs lb last0 held"
  shows "(\<exists>r lb1 last1. LoadBalancer_acquire lb last0 = Inr (r, lb1, last1) \<and>
            LoadBalancer_free lb1 r = Inr lb) \<and>
         frees_positive cs lb last0 \<and>
         (\<exists>lb' last' held'. run_calls cs lb last0 held = Inr (lb', last', held') \<and>
            counts_held lb' held')"
proof (intro conjI)
  show "\<exists>r lb1 last1. LoadBalancer_acquire lb last0 = Inr (r, lb1, last1) \<and>
      LoadBalancer_free lb1 r = Inr lb"
    using acquire_then_free [OF assms(1,2)] .
  from run_calls_counts [OF assms] show "frees_positive cs lb last0" by blast
  from run_calls_counts [OF assms]
  show "\<exists>lb' last' held'. run_calls cs lb last0 held = Inr (lb', last', held') \<and>
      counts_held lb' held'"
    by blast
qed

theorem free_undoes_acquire_witness:
  "LoadBalancer_wf (idle_pool 2) \<and> is_int 0 \<and> counts_held (idle_pool 2) [] \<and>
   length ([] :: int list) + length [Acquire, Acquire, Free 0, Free 1] < 18446744073709551616 \<and>
   matched [Acquire, Acquire, Free 0, Free 1] (idle_pool 2) 0 [] \<and>
   (\<exists>r lb1 last1. LoadBalancer_acquire (idle_pool 2) 0 = Inr (r, lb1, last1) \<and>
            LoadBalancer_free lb1 r = Inr (idle_pool 2)) \<and>
   frees_positive [Acquire, Acquire, Free 0, Free 1] (idle_pool 2) 0 \<and>
   (\<exists>lb' last' held'.
      run_calls [Acquire, Acquire, Free 0, Free 1] (idle_pool 2) 0 [] = Inr (lb', last', held') \<and>
      counts_held lb' held')"
proof -
  have h1: "LoadBalancer_wf (idle_pool 2)" by (simp add: LoadBalancer_wf_def idle_pool_def)
  have h2: "is_int 0" by (simp add: is_int_def INT_MIN_def INT_MAX_def)
  have h3: "counts_held (idle_pool 2) []" by code_simp
  have h4: "length ([] :: int list) + length [Acquire, Acquire, Free 0, Free 1]
      < 18446744073709551616" by simp
  have h5: "matched [Acquire, Acquire, Free 0, Free 1] (idle_pool 2) 0 []" by code_simp
  note t = free_undoes_acquire [OF h1 h2 h3 h4 h5]
  show ?thesis by (intro conjI h1 h2 h3 h4 h5 t [THEN conjunct1] t [THEN conjunct2, THEN conjunct1]
      t [THEN conjunct2, THEN conjunct2])
qed

text \<open>
  C2 as stated fails for a slot that is freed twice. \<^verbatim>\<open>free\<close> has no guard: after one
  acquisition of slot 0 and two calls of \<^verbatim>\<open>free\<close> for it, the second of which frees
  a slot that was returned before but is held no longer, the counter of slot 0 has
  wrapped around below 0 to \<open>2 ^ 64 - 1\<close>.
\<close>

theorem free_twice_counterexample:
  "run_calls [Acquire, Free 0, Free 0] (idle_pool 2) 0 [] =
     Inr (set_counter (idle_pool 2) 0 SIZE_MAX, 0, []) \<and>
   counter (set_counter (idle_pool 2) 0 SIZE_MAX) 0 = 18446744073709551615 \<and>
   \<not> frees_positive [Acquire, Free 0, Free 0] (idle_pool 2) 0 \<and>
   \<not> matched [Acquire, Free 0, Free 0] (idle_pool 2) 0 []"
proof (intro conjI)
  show "run_calls [Acquire, Free 0, Free 0] (idle_pool 2) 0 [] =
     Inr (set_counter (idle_pool 2) 0 SIZE_MAX, 0, [])"
    by code_simp
  show "counter (set_counter (idle_pool 2) 0 SIZE_MAX) 0 = 18446744073709551615"
    by code_simp
  show "\<not> frees_positive [Acquire, Free 0, Free 0] (idle_pool 2) 0" by code_simp
  show "\<not> matched [Acquire, Free 0, Free 0] (idle_pool 2) 0 []" by code_simp
qed

text \<open>
  C7, as the code has it. From counters that are all 0, \<open>k\<close> successive calls of
  \<^verbatim>\<open>acquire\<close>, for \<open>k\<close> at most the number of slots, return \<open>k\<close> distinct slots of
  the pool: the \<open>k\<close> slots that follow the thread-local offset, wrapping around. They
  are all the slots when \<open>k\<close> is the number of slots, and they are \<open>0, \<dots>, k - 1\<close>
  when the scan starts at slot 0.
\<close>

theorem acquire_times_rotate:
  assumes wf: "LoadBalancer_wf lb" and li: "is_int last0"
    and idle: "\<forall>i < slots lb. counter lb i = 0" and k: "k \<le> slots lb"
  shows "\<exists>rs lb' last'. acquire_times k lb last0 = Inr (rs, lb', last') \<and>
     rs = map (\<lambda>j. int (scan_slot lb last0 j)) [0..<k] \<and>
     length rs = k \<and> distinct rs \<and>
     (\<forall>r \<in> set rs. 0 \<le> r \<and> r < int (slots lb)) \<and>
     (k = slots lb \<longrightarrow> set rs = int ` {..< slots lb}) \<and>
     (start (slots lb) last0 = 0 \<longrightarrow> rs = map int [0..<k])"
proof -
  let ?sl = "scan_slot lb last0"
  let ?rs = "map (\<lambda>j. int (?sl j)) [0..<k]"
  from acquire_times_idle [OF wf li idle k] obtain lb' l' where
    run: "acquire_times k lb last0 = Inr (?rs, lb', l')" by blast
  have d: "distinct ?rs"
    using scan_slot_inj_on [OF k] by (simp add: distinct_map)
  have len: "length ?rs = k" by simp
  have rng: "\<forall>r \<in> set ?rs. 0 \<le> r \<and> r < int (slots lb)"
  proof
    fix r assume "r \<in> set ?rs"
    then obtain j where "r = int (?sl j)" by auto
    then show "0 \<le> r \<and> r < int (slots lb)" using scan_slot_less [OF wf, of last0 j] by simp
  qed
  have full: "k = slots lb \<longrightarrow> set ?rs = int ` {..< slots lb}"
  proof
    assume "k = slots lb"
    then have "set ?rs = int ` (?sl ` {..< slots lb})"
      by (simp add: image_image atLeast0LessThan)
    then show "set ?rs = int ` {..< slots lb}"
      by (simp only: scan_slot_image [OF wf])
  qed
  have pre: "start (slots lb) last0 = 0 \<longrightarrow> ?rs = map int [0..<k]"
  proof
    assume s0: "start (slots lb) last0 = 0"
    show "?rs = map int [0..<k]"
    proof (rule map_cong [OF refl])
      fix j assume "j \<in> set [0..<k]"
      then have "j < slots lb" using k by simp
      then show "int (?sl j) = int j" by (simp add: scan_slot_def s0)
    qed
  qed
  show ?thesis
    by (rule exI [of _ ?rs], rule exI [of _ lb'], rule exI [of _ l'])
       (intro conjI run refl len d rng full pre)
qed

theorem acquire_times_rotate_witness:
  "LoadBalancer_wf (idle_pool 4) \<and> is_int 3 \<and> (4 :: nat) \<le> slots (idle_pool 4) \<and>
   (\<exists>rs lb' last'. acquire_times 4 (idle_pool 4) 3 = Inr (rs, lb', last') \<and>
     rs = map (\<lambda>j. int (scan_slot (idle_pool 4) 3 j)) [0..<4] \<and>
     length rs = 4 \<and> distinct rs \<and>
     (\<forall>r \<in> set rs. 0 \<le> r \<and> r < int (slots (idle_pool 4))) \<and>
     (4 = slots (idle_pool 4) \<longrightarrow> set rs = int ` {..< slots (idle_pool 4)}) \<and>
     (start (slots (idle_pool 4)) 3 = 0 \<longrightarrow> rs = map int [0..<4]))"
proof -
  have k: "(4 :: nat) \<le> slots (idle_pool 4)" by (simp add: idle_pool_def)
  note t = acquire_times_rotate [OF idle_pool4_wf is_int_3 idle_pool4_idle k]
  show ?thesis
    by (intro conjI idle_pool4_wf is_int_3 k t)
qed

text \<open>
  C7 as stated fails when the thread has acquired before. In a pool of two, two calls
  of \<^verbatim>\<open>acquire\<close> and the two matching calls of \<^verbatim>\<open>free\<close> leave all counters 0
  and the thread-local \<^verbatim>\<open>last\<close> at 1; the next single call (\<open>k = 1\<close>) returns
  slot 1, which is not in the range \<open>0, \<dots>, k - 1\<close>.
\<close>

theorem acquire_times_counterexample:
  "run_calls [Acquire, Acquire, Free 0, Free 1] (idle_pool 2) 0 [] = Inr (idle_pool 2, 1, []) \<and>
   list_all (\<lambda>i. counter (idle_pool 2) i = 0) [0..<slots (idle_pool 2)] \<and>
   (1 :: nat) \<le> slots (idle_pool 2) \<and>
   acquire_times 1 (idle_pool 2) 1 = Inr ([1], set_counter (idle_pool 2) 1 1, 1) \<and>
   (1 :: int) \<notin> set (map int [0..<1])"
proof (intro conjI)
  show "run_calls [Acquire, Acquire, Free 0, Free 1] (idle_pool 2) 0 [] = Inr (idle_pool 2, 1, [])"
    by code_simp
  show "list_all (\<lambda>i. counter (idle_pool 2) i = 0) [0..<slots (idle_pool 2)]"
    by code_simp
  show "(1 :: nat) \<le> slots (idle_pool 2)" by (simp add: idle_pool_def)
  show "acquire_times 1 (idle_pool 2) 1 = Inr ([1], set_counter (idle_pool 2) 1 1, 1)"
    by code_simp
  show "(1 :: int) \<notin> set (map int [0..<1])" by simp
qed

section \<open>Claims about sessions and replicated objects\<close>

text \<open>
  C4. \<^verbatim>\<open>InterpreterSession::create_movable\<close> fails with an error that carries a
  message when the session has no manager. With a manager, when the runtime pickles the
  object, it returns the object made of the manager's next object id, the pickled payload
  and the manager, and the manager's counter is one higher afterwards.
\<close>

theorem create_movable_result:
  "(ses_manager I = None \<longrightarrow>
      (\<exists>msg. InterpreterSession_create_movable pickle w I v = Inl (Error msg))) \<and>
   (ses_manager I = Some m \<and> pickle (self I) v = Inr payload \<and> managers w m = Some M \<longrightarrow>
      InterpreterSession_create_movable pickle w I v =
        Inr (\<lparr>object_id = next_object_id M, data = payload, obj_manager = m\<rparr>,
             w\<lparr>managers := (managers w)(m \<mapsto> M\<lparr>next_object_id := next_object_id M + 1\<rparr>)\<rparr>))"
  by (simp add: InterpreterSession_create_movable_def)

theorem create_movable_result_witness:
  "ses_manager session_alone = None \<and>
   (\<exists>msg. InterpreterSession_create_movable (\<lambda>s x. Inr (x + 1)) world2 session_alone 29 =
      Inl (Error msg)) \<and>
   ses_manager session_on11 = Some 7 \<and> managers world2 7 = Some manager7 \<and>
   InterpreterSession_create_movable (\<lambda>s x. Inr (x + 1)) world2 session_on11 29 =
     Inr (\<lparr>object_id = next_object_id manager7, data = 30, obj_manager = 7\<rparr>,
          world2\<lparr>managers := (managers world2)
             (7 \<mapsto> manager7\<lparr>next_object_id := next_object_id manager7 + 1\<rparr>)\<rparr>)"
proof -
  have a: "ses_manager session_alone = None" by (simp add: session_alone_def)
  have b: "ses_manager session_on11 = Some 7" by (simp add: session_on11_def)
  have c: "managers world2 7 = Some manager7" by (simp add: world2_def)
  have d: "(\<lambda>s x. Inr (x + 1) :: failure + nat) (self session_on11) (29 :: nat) = Inr 30" by simp
  from create_movable_result [of session_alone "\<lambda>s x. Inr (x + 1)" world2 29] a
  have 1: "\<exists>msg. InterpreterSession_create_movable (\<lambda>s x. Inr (x + 1)) world2 session_alone 29 =
     Inl (Error msg)"
    by blast
  from create_movable_result [of session_on11 "\<lambda>s x. Inr (x + 1)" world2 29 7 30 manager7] b c d
  have 2: "InterpreterSession_create_movable (\<lambda>s x. Inr (x + 1)) world2 session_on11 29 =
     Inr (\<lparr>object_id = next_object_id manager7, data = 30, obj_manager = 7\<rparr>,
          world2\<lparr>managers := (managers world2)
             (7 \<mapsto> manager7\<lparr>next_object_id := next_object_id manager7 + 1\<rparr>)\<rparr>)"
    by blast
  show ?thesis by (intro conjI a b c 1 2)
qed

text \<open>
  C5. \<^verbatim>\<open>ReplicatedObjImpl::unload\<close> without an interpreter runs the unload with an
  interpreter once for each interpreter of the manager's pool, in order. An unload on one
  interpreter takes a session on it and has the runtime drop its materialization of the
  object's id, and nothing else changes; after the sweep every interpreter of the pool
  is without that materialization. The destructor of the object is this sweep.
\<close>

theorem unload_all_instances:
  assumes "managers w (obj_manager obj) = Some M"
    and "\<forall>ip \<in> set (instances M). interpreters w ip \<noteq> None"
  shows "ReplicatedObjImpl_unload w obj None = unload_each w obj (instances M) \<and>
    (\<forall>ip \<in> set (instances M). \<exists>X.
        interpreters w ip = Some X \<and>
        ReplicatedObjImpl_unload w obj (Some ip) =
          Inr (w\<lparr>interpreters := (interpreters w)(ip \<mapsto> drop_id (object_id obj) X)\<rparr>)) \<and>
    ReplicatedObjImpl_unload w obj None =
      Inr (w\<lparr>interpreters := (\<lambda>a. if a \<in> set (instances M)
                                    then map_option (drop_id (object_id obj)) (interpreters w a)
                                    else interpreters w a)\<rparr>) \<and>
    ReplicatedObjImpl_dtor w obj = ReplicatedObjImpl_unload w obj None"
proof (intro conjI ballI)
  show a: "ReplicatedObjImpl_unload w obj None = unload_each w obj (instances M)"
    using assms(1) by (simp add: ReplicatedObjImpl_unload_def)
  show "ReplicatedObjImpl_unload w obj None =
      Inr (w\<lparr>interpreters := (\<lambda>a. if a \<in> set (instances M)
                                    then map_option (drop_id (object_id obj)) (interpreters w a)
                                    else interpreters w a)\<rparr>)"
    unfolding a using assms(2) by (rule unload_each_live)
  show "ReplicatedObjImpl_dtor w obj = ReplicatedObjImpl_unload w obj None"
    by (simp add: ReplicatedObjImpl_dtor_def)
next
  fix ip assume "ip \<in> set (instances M)"
  with assms(2) obtain X where X: "interpreters w ip = Some X" by auto
  from unload_here_live [OF X, of obj]
  have "ReplicatedObjImpl_unload w obj (Some ip) =
      Inr (w\<lparr>interpreters := (interpreters w)(ip \<mapsto> drop_id (object_id obj) X)\<rparr>)"
    by (simp add: ReplicatedObjImpl_unload_def drop_id_def)
  with X show "\<exists>X. interpreters w ip = Some X \<and>
        ReplicatedObjImpl_unload w obj (Some ip) =
          Inr (w\<lparr>interpreters := (interpreters w)(ip \<mapsto> drop_id (object_id obj) X)\<rparr>)"
    by blast
qed

theorem unload_all_instances_witness:
  "managers world2 (obj_manager obj3) = Some manager7 \<and>
   ReplicatedObjImpl_unload world2 obj3 None = unload_each world2 obj3 (instances manager7) \<and>
   ReplicatedObjImpl_unload world2 obj3 None =
      Inr (world2\<lparr>interpreters := (\<lambda>a. if a \<in> set (instances manager7)
                      then map_option (drop_id (object_id obj3)) (interpreters world2 a)
                      else interpreters world2 a)\<rparr>) \<and>
   ReplicatedObjImpl_dtor world2 obj3 = ReplicatedObjImpl_unload world2 obj3 None"
proof -
  note t = unload_all_instances [OF world2_manager world2_live]
  show ?thesis
    by (intro conjI world2_manager t [THEN conjunct1]
        t [THEN conjunct2, THEN conjunct2, THEN conjunct1]
        t [THEN conjunct2, THEN conjunct2, THEN conjunct2])
qed

text \<open>
  C6. The destructor of a session changes the managers' state exactly when the session
  has a manager and a slot index that is not negative, and then by one call of
  \<^verbatim>\<open>free\<close> for that slot on the manager's balancer; otherwise it changes nothing.
  A session from \<^verbatim>\<open>acquire_one\<close> has both, and destroying it takes the balancer
  back to where it was before the acquisition. A session taken from an interpreter
  directly has a negative slot index, and destroying it frees nothing.
\<close>

theorem session_dtor_frees_once:
  "(InterpreterSession_dtor w I = Inr w' \<longrightarrow>
      (managers w' \<noteq> managers w \<longleftrightarrow> ses_manager I \<noteq> None \<and> 0 \<le> notify_idx I) \<and>
      (if ses_manager I \<noteq> None \<and> 0 \<le> notify_idx I
       then \<exists>m M lb. ses_manager I = Some m \<and> managers w m = Some M \<and>
              LoadBalancer_free (resources M) (notify_idx I) = Inr lb \<and>
              w' = w\<lparr>managers := (managers w)(m \<mapsto> M\<lparr>resources := lb\<rparr>)\<rparr>
       else w' = w)) \<and>
   (manager_wf v m \<and> is_int (tls_last v) \<and> acquire_one v m = Inr (I1, v1) \<longrightarrow>
      ses_manager I1 = Some m \<and> 0 \<le> notify_idx I1 \<and>
      (\<exists>v2. InterpreterSession_dtor v1 I1 = Inr v2 \<and> managers v2 = managers v)) \<and>
   (Interpreter_acquire_session u ip = Inr I0 \<longrightarrow>
      notify_idx I0 < 0 \<and> InterpreterSession_dtor u1 I0 = Inr u1)"
proof (intro conjI impI)
  assume a: "InterpreterSession_dtor w I = Inr w'"
  show "managers w' \<noteq> managers w \<longleftrightarrow> ses_manager I \<noteq> None \<and> 0 \<le> notify_idx I"
    using dtor_touches_iff [OF a] .
  show "if ses_manager I \<noteq> None \<and> 0 \<le> notify_idx I
       then \<exists>m M lb. ses_manager I = Some m \<and> managers w m = Some M \<and>
              LoadBalancer_free (resources M) (notify_idx I) = Inr lb \<and>
              w' = w\<lparr>managers := (managers w)(m \<mapsto> M\<lparr>resources := lb\<rparr>)\<rparr>
       else w' = w"
    using dtor_cases [OF a] .
next
  assume a: "manager_wf v m \<and> is_int (tls_last v) \<and> acquire_one v m = Inr (I1, v1)"
  then have t: "ses_manager I1 = Some m \<and> 0 \<le> notify_idx I1 \<and>
      (\<exists>v2. InterpreterSession_dtor v1 I1 = Inr v2 \<and> managers v2 = managers v)"
    using acquire_one_then_dtor [of v m I1 v1] by blast
  from t show "ses_manager I1 = Some m" by blast
  from t show "0 \<le> notify_idx I1" by blast
  from t show "\<exists>v2. InterpreterSession_dtor v1 I1 = Inr v2 \<and> managers v2 = managers v" by blast
next
  assume a: "Interpreter_acquire_session u ip = Inr I0"
  from Interpreter_acquire_session_Inr [OF a] show "notify_idx I0 < 0" by simp
  from dtor_bound_session [OF a] show "InterpreterSession_dtor u1 I0 = Inr u1" .
qed

theorem session_dtor_frees_once_witness:
  "InterpreterSession_dtor world2_busy session_lb = Inr world2 \<and>
   (managers world2 \<noteq> managers world2_busy) \<and>
   manager_wf world2 7 \<and> is_int (tls_last world2) \<and>
   acquire_one world2 7 = Inr (session_lb, world2_busy) \<and>
   ses_manager session_lb = Some 7 \<and>
   (\<exists>v2. InterpreterSession_dtor world2_busy session_lb = Inr v2 \<and> managers v2 = managers world2) \<and>
   Interpreter_acquire_session world2 11 = Inr session_on11 \<and>
   InterpreterSession_dtor world2_busy session_on11 = Inr world2_busy"
proof -
  note t = session_dtor_frees_once [of world2_busy session_lb world2 world2 7 session_lb
      world2_busy world2 11 session_on11 world2_busy]
  have tagged: "ses_manager session_lb \<noteq> None \<and> 0 \<le> notify_idx session_lb"
    by (simp add: session_lb_def)
  from t world2_busy_dtor tagged have c1: "managers world2 \<noteq> managers world2_busy" by blast
  from t world2_wf world2_last world2_acquire_one
  have c2: "ses_manager session_lb = Some 7"
    and c3: "\<exists>v2. InterpreterSession_dtor world2_busy session_lb = Inr v2 \<and>
      managers v2 = managers world2"
    by blast+
  from t world2_session11
  have c4: "InterpreterSession_dtor world2_busy session_on11 = Inr world2_busy" by blast
  show ?thesis
    by (intro conjI world2_busy_dtor c1 world2_wf world2_last world2_acquire_one c2 c3
        world2_session11 c4)
qed

text \<open>
  C8. A session that \<^verbatim>\<open>ReplicatedObj::acquire_session\<close> returns was taken from the
  given interpreter when there is one, and from the manager's \<^verbatim>\<open>acquire_one\<close>
  otherwise; its \<^verbatim>\<open>self\<close> is the value \<^verbatim>\<open>from_movable\<close> returned in it, which is
  the materialization of the object's id in the session's interpreter. The call returns
  such a session whenever the session can be taken and \<^verbatim>\<open>from_movable\<close> succeeds.
\<close>

theorem acquire_session_binds_self:
  "(ReplicatedObj_acquire_session unpickle w obj on_this_interpreter = Inr (I', w') \<longrightarrow>
      (\<exists>I w1 v.
         (case on_this_interpreter of
            Some ip \<Rightarrow> Interpreter_acquire_session w ip = Inr I \<and> w1 = w \<and> impl I' = ip
          | None \<Rightarrow> acquire_one w (obj_manager obj) = Inr (I, w1)) \<and>
         InterpreterSession_from_movable unpickle w1 I obj = Inr (v, w') \<and>
         I' = I\<lparr>self := Some v\<rparr> \<and> self I' = Some v \<and>
         (\<exists>X. interpreters w' (impl I') = Some X \<and> pImpl X (object_id obj) = Some v))) \<and>
   ((case on_this_interpreter of
       Some ip \<Rightarrow> Interpreter_acquire_session w ip = Inr J \<and> w2 = w
     | None \<Rightarrow> acquire_one w (obj_manager obj) = Inr (J, w2)) \<and>
    InterpreterSession_from_movable unpickle w2 J obj = Inr (x, w3) \<longrightarrow>
      ReplicatedObj_acquire_session unpickle w obj on_this_interpreter =
        Inr (J\<lparr>self := Some x\<rparr>, w3))"
proof (intro conjI impI)
  assume a: "ReplicatedObj_acquire_session unpickle w obj on_this_interpreter = Inr (I', w')"
  from acquire_session_Inr [OF a] obtain I w1 v where
    s: "case on_this_interpreter of
          Some ip \<Rightarrow> Interpreter_acquire_session w ip = Inr I \<and> w1 = w
        | None \<Rightarrow> acquire_one w (obj_manager obj) = Inr (I, w1)"
    and f: "InterpreterSession_from_movable unpickle w1 I obj = Inr (v, w')"
    and I': "I' = I\<lparr>self := Some v\<rparr>"
    by blast
  from from_movable_materialized [OF f] I'
  have m: "\<exists>X. interpreters w' (impl I') = Some X \<and> pImpl X (object_id obj) = Some v" by simp
  have s': "case on_this_interpreter of
            Some ip \<Rightarrow> Interpreter_acquire_session w ip = Inr I \<and> w1 = w \<and> impl I' = ip
          | None \<Rightarrow> acquire_one w (obj_manager obj) = Inr (I, w1)"
  proof (cases on_this_interpreter)
    case None
    with s show ?thesis by simp
  next
    case (Some ip)
    with s have b: "Interpreter_acquire_session w ip = Inr I" "w1 = w" by simp_all
    from Interpreter_acquire_session_Inr [OF b(1)] have "impl I = ip" by simp
    with b I' Some show ?thesis by simp
  qed
  from s' f I' m show "\<exists>I w1 v.
         (case on_this_interpreter of
            Some ip \<Rightarrow> Interpreter_acquire_session w ip = Inr I \<and> w1 = w \<and> impl I' = ip
          | None \<Rightarrow> acquire_one w (obj_manager obj) = Inr (I, w1)) \<and>
         InterpreterSession_from_movable unpickle w1 I obj = Inr (v, w') \<and>
         I' = I\<lparr>self := Some v\<rparr> \<and> self I' = Some v \<and>
         (\<exists>X. interpreters w' (impl I') = Some X \<and> pImpl X (object_id obj) = Some v)"
    by (intro exI [of _ I] exI [of _ w1] exI [of _ v]) simp
next
  assume "(case on_this_interpreter of
       Some ip \<Rightarrow> Interpreter_acquire_session w ip = Inr J \<and> w2 = w
     | None \<Rightarrow> acquire_one w (obj_manager obj) = Inr (J, w2)) \<and>
    InterpreterSession_from_movable unpickle w2 J obj = Inr (x, w3)"
  then show "ReplicatedObj_acquire_session unpickle w obj on_this_interpreter =
        Inr (J\<lparr>self := Some x\<rparr>, w3)"
    by (cases on_this_interpreter) (auto simp: ReplicatedObj_acquire_session_def)
qed

theorem acquire_session_binds_self_witness:
  "acquire_one world2 (obj_manager obj3) = Inr (session_lb, world2_busy) \<and>
   InterpreterSession_from_movable (\<lambda>p. Inr (p + 1)) world2_busy session_lb obj3 =
     Inr (30, world2_used) \<and>
   ReplicatedObj_acquire_session (\<lambda>p. Inr (p + 1)) world2 obj3 None =
     Inr (session_lb\<lparr>self := Some 30\<rparr>, world2_used) \<and>
   Interpreter_acquire_session world2 11 = Inr session_on11 \<and>
   InterpreterSession_from_movable (\<lambda>p. Inr (p + 1)) world2 session_on11 obj3 =
     Inr (31, world2_on11) \<and>
   ReplicatedObj_acquire_session (\<lambda>p. Inr (p + 1)) world2 obj3 (Some 11) =
     Inr (session_on11\<lparr>self := Some 31\<rparr>, world2_on11)"
proof -
  have a: "acquire_one world2 (obj_manager obj3) = Inr (session_lb, world2_busy)"
    using world2_acquire_one by (simp add: obj3_def)
  have h1: "(case None :: nat option of
       Some ip \<Rightarrow> Interpreter_acquire_session world2 ip = Inr session_lb \<and> world2_busy = world2
     | None \<Rightarrow> acquire_one world2 (obj_manager obj3) = Inr (session_lb, world2_busy)) \<and>
    InterpreterSession_from_movable (\<lambda>p. Inr (p + 1)) world2_busy session_lb obj3 =
      Inr (30, world2_used)"
    using a world2_from_movable_10 by simp
  have h2: "(case Some 11 of
       Some ip \<Rightarrow> Interpreter_acquire_session world2 ip = Inr session_on11 \<and> world2 = world2
     | None \<Rightarrow> acquire_one world2 (obj_manager obj3) = Inr (session_on11, world2)) \<and>
    InterpreterSession_from_movable (\<lambda>p. Inr (p + 1)) world2 session_on11 obj3 =
      Inr (31, world2_on11)"
    using world2_session11 world2_from_movable_11 by simp
  note t1 = acquire_session_binds_self [where unpickle = "\<lambda>p. Inr (p + 1)" and w = world2
      and obj = obj3 and on_this_interpreter = None and J = session_lb and ?w2.0 = world2_busy
      and x = 30 and ?w3.0 = world2_used, THEN conjunct2, rule_format, OF h1]
  note t2 = acquire_session_binds_self [where unpickle = "\<lambda>p. Inr (p + 1)" and w = world2
      and obj = obj3 and on_this_interpreter = "Some 11" and J = session_on11
      and ?w2.0 = world2 and x = 31 and ?w3.0 = world2_on11, THEN conjunct2, rule_format, OF h2]
  show ?thesis
    by (intro conjI a world2_from_movable_10 t1 world2_session11 world2_from_movable_11 t2)
qed

text \<open>
  C9, as the code has it. \<^verbatim>\<open>register_embedded_interpreter\<close> and its CUDA variant fail
  with an error that carries a message when the start is null, the end is null or the
  signed 64-bit difference \<^verbatim>\<open>lib_end - lib_start\<close> is not above 0; otherwise they store
  the two pointers in their pair of globals. For two addresses less than \<open>2 ^ 63\<close> apart,
  as the ends of one byte range are, the difference is above 0 exactly when the end is
  after the start.
\<close>

theorem register_embedded_interpreter_checks:
  "(lib_start = 0 \<or> lib_end = 0 \<or> sint (lib_end - lib_start) \<le> 0 \<longrightarrow>
      (\<exists>msg. register_embedded_interpreter g lib_start lib_end = Inl (Error msg)) \<and>
      (\<exists>msg. register_embedded_interpreter_cuda g lib_start lib_end = Inl (Error msg))) \<and>
   (lib_start \<noteq> 0 \<and> lib_end \<noteq> 0 \<and> 0 < sint (lib_end - lib_start) \<longrightarrow>
      register_embedded_interpreter g lib_start lib_end =
        Inr (g\<lparr>embedded_interpreter_so_start := lib_start,
                embedded_interpreter_so_end := lib_end\<rparr>) \<and>
      register_embedded_interpreter_cuda g lib_start lib_end =
        Inr (g\<lparr>embedded_interpreter_cuda_so_start := lib_start,
                embedded_interpreter_cuda_so_end := lib_end\<rparr>)) \<and>
   (\<bar>uint lib_end - uint lib_start\<bar> < 9223372036854775808 \<longrightarrow>
      (0 < sint (lib_end - lib_start)) = (lib_start < lib_end))"
proof (intro conjI impI)
  assume "lib_start = 0 \<or> lib_end = 0 \<or> sint (lib_end - lib_start) \<le> 0"
  then show "\<exists>msg. register_embedded_interpreter g lib_start lib_end = Inl (Error msg)"
    by (auto simp: register_embedded_interpreter_def)
next
  assume "lib_start = 0 \<or> lib_end = 0 \<or> sint (lib_end - lib_start) \<le> 0"
  then show "\<exists>msg. register_embedded_interpreter_cuda g lib_start lib_end = Inl (Error msg)"
    by (auto simp: register_embedded_interpreter_cuda_def)
next
  assume "lib_start \<noteq> 0 \<and> lib_end \<noteq> 0 \<and> 0 < sint (lib_end - lib_start)"
  then show "register_embedded_interpreter g lib_start lib_end =
        Inr (g\<lparr>embedded_interpreter_so_start := lib_start,
                embedded_interpreter_so_end := lib_end\<rparr>)"
    by (simp add: register_embedded_interpreter_def)
next
  assume "lib_start \<noteq> 0 \<and> lib_end \<noteq> 0 \<and> 0 < sint (lib_end - lib_start)"
  then show "register_embedded_interpreter_cuda g lib_start lib_end =
        Inr (g\<lparr>embedded_interpreter_cuda_so_start := lib_start,
                embedded_interpreter_cuda_so_end := lib_end\<rparr>)"
    by (simp add: register_embedded_interpreter_cuda_def)
next
  assume "\<bar>uint lib_end - uint lib_start\<bar> < 9223372036854775808"
  then have "sint (lib_end - lib_start) = uint lib_end - uint lib_start"
    by (rule sint_diff_near)
  then show "(0 < sint (lib_end - lib_start)) = (lib_start < lib_end)"
    by (simp add: word_less_def)
qed

theorem register_embedded_interpreter_checks_witness:
  "(\<exists>msg. register_embedded_interpreter no_image 4096 4096 = Inl (Error msg)) \<and>
   (\<exists>msg. register_embedded_interpreter_cuda no_image 8192 4096 = Inl (Error msg)) \<and>
   (\<exists>msg. register_embedded_interpreter no_image 0 4096 = Inl (Error msg)) \<and>
   (\<exists>msg. register_embedded_interpreter no_image 4096 0 = Inl (Error msg)) \<and>
   register_embedded_interpreter no_image 4096 8192 =
     Inr (no_image\<lparr>embedded_interpreter_so_start := 4096, embedded_interpreter_so_end := 8192\<rparr>) \<and>
   register_embedded_interpreter_cuda no_image 4096 8192 =
     Inr (no_image\<lparr>embedded_interpreter_cuda_so_start := 4096,
                    embedded_interpreter_cuda_so_end := 8192\<rparr>) \<and>
   (0 < sint (8192 - 4096 :: 64 word)) = ((4096 :: 64 word) < 8192)"
proof -
  have a: "(4096 :: 64 word) = 0 \<or> (4096 :: 64 word) = 0 \<or> sint (4096 - 4096 :: 64 word) \<le> 0"
    by simp
  have b: "(8192 :: 64 word) = 0 \<or> (4096 :: 64 word) = 0 \<or> sint (4096 - 8192 :: 64 word) \<le> 0"
    by simp
  have c: "(0 :: 64 word) = 0 \<or> (4096 :: 64 word) = 0 \<or> sint (4096 - 0 :: 64 word) \<le> 0"
    by simp
  have d: "(4096 :: 64 word) = 0 \<or> (0 :: 64 word) = 0 \<or> sint (0 - 4096 :: 64 word) \<le> 0"
    by simp
  have e: "(4096 :: 64 word) \<noteq> 0 \<and> (8192 :: 64 word) \<noteq> 0 \<and> 0 < sint (8192 - 4096 :: 64 word)"
    by simp
  have f: "\<bar>uint (8192 :: 64 word) - uint (4096 :: 64 word)\<bar> < 9223372036854775808"
    by simp
  from register_embedded_interpreter_checks [of 4096 4096 no_image] a
  have 1: "\<exists>msg. register_embedded_interpreter no_image 4096 4096 = Inl (Error msg)" by blast
  from register_embedded_interpreter_checks [of 8192 4096 no_image] b
  have 2: "\<exists>msg. register_embedded_interpreter_cuda no_image 8192 4096 = Inl (Error msg)" by blast
  from register_embedded_interpreter_checks [of 0 4096 no_image] c
  have 3: "\<exists>msg. register_embedded_interpreter no_image 0 4096 = Inl (Error msg)" by blast
  from register_embedded_interpreter_checks [of 4096 0 no_image] d
  have 4: "\<exists>msg. register_embedded_interpreter no_image 4096 0 = Inl (Error msg)" by blast
  from register_embedded_interpreter_checks [of 4096 8192 no_image] e
  have 5: "register_embedded_interpreter no_image 4096 8192 =
     Inr (no_image\<lparr>embedded_interpreter_so_start := 4096, embedded_interpreter_so_end := 8192\<rparr>)"
    and 6: "register_embedded_interpreter_cuda no_image 4096 8192 =
     Inr (no_image\<lparr>embedded_interpreter_cuda_so_start := 4096,
                    embedded_interpreter_cuda_so_end := 8192\<rparr>)"
    by blast+
  from register_embedded_interpreter_checks [of 4096 8192 no_image] f
  have 7: "(0 < sint (8192 - 4096 :: 64 word)) = ((4096 :: 64 word) < 8192)" by blast
  show ?thesis by (intro conjI 1 2 3 4 5 6 7)
qed

text \<open>
  C9 as stated fails for two addresses \<open>2 ^ 63\<close> or more apart. With the start at
  \<open>2 ^ 64 - 1\<close> and the end at 1, the end is not after the start, and the difference in
  64 bits is 2: the call stores the pair. With the two exchanged the end is after the
  start, the difference is -2, and the call fails.
\<close>

theorem register_embedded_interpreter_counterexample:
  "(1 :: 64 word) < 18446744073709551615 \<and>
   register_embedded_interpreter no_image 18446744073709551615 1 =
     Inr (no_image\<lparr>embedded_interpreter_so_start := 18446744073709551615,
                    embedded_interpreter_so_end := 1\<rparr>) \<and>
   register_embedded_interpreter no_image 1 18446744073709551615 =
     Inl (Error ''expected embedded_interpreter_libsize > 0'')"
  by (simp add: register_embedded_interpreter_def)

text \<open>
  C10. An unload, on one interpreter or on all, and the destructor of a replicated
  object leave every manager as it was, and with it every usage counter, and leave the
  thread-local \<^verbatim>\<open>last\<close> alone: a session taken from an interpreter directly
  carries the slot index -1, and its destructor changes nothing.
\<close>

theorem unload_keeps_counters:
  "(ReplicatedObjImpl_unload w obj on_this_interpreter = Inr w' \<longrightarrow>
      managers w' = managers w \<and> tls_last w' = tls_last w) \<and>
   (ReplicatedObjImpl_dtor w obj = Inr w'' \<longrightarrow>
      managers w'' = managers w \<and> tls_last w'' = tls_last w) \<and>
   (Interpreter_acquire_session u ip = Inr I \<longrightarrow>
      notify_idx I = - 1 \<and> InterpreterSession_dtor u1 I = Inr u1)"
proof (intro conjI impI)
  assume a: "ReplicatedObjImpl_unload w obj on_this_interpreter = Inr w'"
  have "managers w' = managers w \<and> tls_last w' = tls_last w"
  proof (cases on_this_interpreter)
    case None
    with a obtain M :: InterpreterManager where "unload_each w obj (instances M) = Inr w'"
      by (auto simp: ReplicatedObjImpl_unload_def split: option.splits)
    then show ?thesis by (rule unload_each_frame)
  next
    case (Some ip)
    with a have "unload_here w obj ip = Inr w'" by (simp add: ReplicatedObjImpl_unload_def)
    then show ?thesis by (rule unload_here_frame)
  qed
  then show "managers w' = managers w" "tls_last w' = tls_last w" by simp_all
next
  assume a: "ReplicatedObjImpl_dtor w obj = Inr w''"
  then obtain M :: InterpreterManager where "unload_each w obj (instances M) = Inr w''"
    by (auto simp: ReplicatedObjImpl_dtor_def ReplicatedObjImpl_unload_def split: option.splits)
  then have "managers w'' = managers w \<and> tls_last w'' = tls_last w" by (rule unload_each_frame)
  then show "managers w'' = managers w" "tls_last w'' = tls_last w" by simp_all
next
  assume a: "Interpreter_acquire_session u ip = Inr I"
  from Interpreter_acquire_session_Inr [OF a] show "notify_idx I = - 1" by simp
  from dtor_bound_session [OF a] show "InterpreterSession_dtor u1 I = Inr u1" .
qed

theorem unload_keeps_counters_witness:
  "ReplicatedObjImpl_unload world2 obj3 None = Inr world2_unloaded \<and>
   managers world2_unloaded = managers world2 \<and>
   ReplicatedObjImpl_unload world2 obj3 (Some 10) = Inr world2_unloaded10 \<and>
   managers world2_unloaded10 = managers world2 \<and>
   ReplicatedObjImpl_dtor world2 obj3 = Inr world2_unloaded \<and>
   Interpreter_acquire_session world2 11 = Inr session_on11 \<and>
   InterpreterSession_dtor world2 session_on11 = Inr world2"
proof -
  have d: "ReplicatedObjImpl_dtor world2 obj3 = Inr world2_unloaded"
    using world2_unload_all by (simp add: ReplicatedObjImpl_dtor_def)
  from unload_keeps_counters [of world2 obj3 None world2_unloaded world2_unloaded world2 11
      session_on11 world2] world2_unload_all d world2_session11
  have 1: "managers world2_unloaded = managers world2"
    and 3: "InterpreterSession_dtor world2 session_on11 = Inr world2"
    by blast+
  from unload_keeps_counters [of world2 obj3 "Some 10" world2_unloaded10] world2_unload_10
  have 2: "managers world2_unloaded10 = managers world2" by blast
  show ?thesis by (intro conjI world2_unload_all 1 world2_unload_10 2 d world2_session11 3)
qed

section \<open>Further properties\<close>

text \<open>
  Calls of \<^verbatim>\<open>create_movable\<close> that run one after the other on sessions of one
  manager, each with an object the runtime can pickle, give the objects the consecutive
  ids from the manager's counter on: the ids are distinct and increase, as long as the
  64-bit counter does not wrap around.
\<close>

theorem create_movable_ids_in_sequence:
  assumes "managers w m = Some M"
    and "\<forall>(I, v) \<in> set rs. ses_manager I = Some m \<and> (\<exists>p. pickle (self I) v = Inr p)"
    and "unat (next_object_id M) + length rs \<le> 18446744073709551616"
  shows "\<exists>objs w'. create_all pickle w rs = Inr (objs, w') \<and>
    map (\<lambda>obj. unat (object_id obj)) objs =
      [unat (next_object_id M) ..< unat (next_object_id M) + length rs] \<and>
    distinct (map object_id objs) \<and> sorted_wrt (<) (map object_id objs)"
proof -
  from create_all_ids [OF assms] obtain objs w' where
    ca: "create_all pickle w rs = Inr (objs, w')"
    and ids: "map (\<lambda>obj. unat (object_id obj)) objs =
      [unat (next_object_id M) ..< unat (next_object_id M) + length rs]"
    by blast
  from ids have "map unat (map object_id objs) =
      [unat (next_object_id M) ..< unat (next_object_id M) + length rs]"
    by (simp add: comp_def)
  from upt_unat_distinct [OF this] ca ids show ?thesis by blast
qed

theorem create_movable_ids_in_sequence_witness:
  "managers world2 7 = Some manager7 \<and>
   unat (next_object_id manager7) + length [(session_lb, 1 :: nat), (session_on11, 2)]
      \<le> 18446744073709551616 \<and>
   (\<exists>objs w'. create_all (\<lambda>s x. Inr (x + 1)) world2 [(session_lb, 1), (session_on11, 2)] =
        Inr (objs, w') \<and>
      map (\<lambda>obj. unat (object_id obj)) objs =
        [unat (next_object_id manager7) ..<
           unat (next_object_id manager7) + length [(session_lb, 1 :: nat), (session_on11, 2)]] \<and>
      distinct (map object_id (objs :: nat ReplicatedObjImpl list)) \<and>
      sorted_wrt (<) (map object_id objs))"
proof -
  have a: "managers world2 7 = Some manager7" by (simp add: world2_def)
  have b: "\<forall>(I, v) \<in> set [(session_lb, 1 :: nat), (session_on11, 2)].
      ses_manager I = Some 7 \<and> (\<exists>p. (\<lambda>s x. Inr (x + 1) :: failure + nat) (self I) v = Inr p)"
    by (simp add: session_lb_def session_on11_def)
  have c: "unat (next_object_id manager7) + length [(session_lb, 1 :: nat), (session_on11, 2)]
      \<le> 18446744073709551616"
    by (simp add: manager7_def)
  note t = create_movable_ids_in_sequence [OF a b c]
  show ?thesis by (intro conjI a c t)
qed

text \<open>
  A balancer whose counters count the held slots, fewer than \<open>2 ^ 64 - 1\<close> of
  them, has no counter equal to \<^verbatim>\<open>SIZE_MAX\<close>.
\<close>

theorem held_counters_below_max:
  assumes "LoadBalancer_wf lb" and "counts_held lb held"
    and "length held < 18446744073709551615"
  shows "\<forall>i < slots lb. counter lb i \<noteq> SIZE_MAX"
proof (intro allI impI)
  fix i assume i: "i < slots lb"
  from assms(2) i have "unat (counter lb i) = count_list held (int i)"
    by (simp add: counts_held_iff)
  with count_list_le_length [of held "int i"] assms(3)
  have "unat (counter lb i) < 18446744073709551615" by simp
  moreover have "unat SIZE_MAX = 18446744073709551615"
    by (simp add: SIZE_MAX_def unsigned_minus_1_eq_mask mask_eq_exp_minus_1)
  ultimately show "counter lb i \<noteq> SIZE_MAX" by auto
qed

theorem held_counters_below_max_witness:
  "LoadBalancer_wf pool3 \<and> counts_held pool3 [0, 1, 0, 2] \<and>
   length [0 :: int, 1, 0, 2] < 18446744073709551615 \<and>
   counter pool3 0 \<noteq> SIZE_MAX \<and> counter pool3 1 \<noteq> SIZE_MAX \<and> counter pool3 2 \<noteq> SIZE_MAX"
proof -
  have a: "counts_held pool3 [0, 1, 0, 2]" by code_simp
  have b: "length [0 :: int, 1, 0, 2] < 18446744073709551615" by simp
  note t = held_counters_below_max [OF pool3_wf a b, rule_format]
  have n: "0 < slots pool3" "1 < slots pool3" "2 < slots pool3" by (simp_all add: pool3_def)
  show ?thesis by (intro conjI pool3_wf a b t n)
qed

end
